theory Spec2Isabelle
  imports Main "HOL-Library.Product_Lexorder" "HOL-Library.Multiset"
begin

section \<open>Basic types (graph.hpp)\<close>

text \<open>
  \<^verbatim>\<open>typedef int Vertex; typedef int Distance;\<close>
  \<^verbatim>\<open>static const Distance infty = std::numeric_limits<Distance>::max();\<close>

  Vertices index arrays and distances are the non-negative values of a 32-bit \<^verbatim>\<open>int\<close>;
  both are modelled as natural numbers. Wherever the source adds or subtracts distances the
  guarding assertion is part of the model, so a sum that would leave the range of
  \<^verbatim>\<open>int\<close> ends in \<open>AssertionFailed\<close>, as the process would abort.
\<close>

type_synonym Vertex = nat
type_synonym Distance = nat

definition infty :: Distance where
  "infty = 2147483647"

datatype error = AssertionFailed | OutOfRange

section \<open>Label store (hl/labeling.hpp, lib/labeling.hpp)\<close>

text \<open>
  \<^verbatim>\<open>label_v[u][side]\<close> is the list of hubs of vertex \<open>u\<close> on a side, \<^verbatim>\<open>label_d[u][side]\<close>
  the list of distances to them; a \<^verbatim>\<open>bool\<close> side indexes position 0 or 1.
\<close>

record Labeling =
  label_v :: "Vertex list list list"
  label_d :: "Distance list list list"
  label_n :: nat

definition side :: "bool \<Rightarrow> nat" where
  "side f = (if f then 1 else 0)"

definition hubs :: "Labeling \<Rightarrow> Vertex \<Rightarrow> bool \<Rightarrow> Vertex list" where
  "hubs L u f = label_v L ! u ! side f"

definition dists :: "Labeling \<Rightarrow> Vertex \<Rightarrow> bool \<Rightarrow> Distance list" where
  "dists L u f = label_d L ! u ! side f"

text \<open>The constructor \<^verbatim>\<open>Labeling(size_t n)\<close>: \<open>n\<close> vertices, two empty lists each.\<close>

definition Labeling_new :: "nat \<Rightarrow> Labeling" where
  "Labeling_new m = \<lparr> label_v = replicate m [[], []], label_d = replicate m [[], []], label_n = m \<rparr>"

text \<open>
  The representation invariant of the class: \<open>n\<close> rows, two sides per row, and the hub and
  distance arrays of one label of equal length.
\<close>

definition labeling_inv :: "Labeling \<Rightarrow> bool" where
  "labeling_inv L \<longleftrightarrow>
     length (label_v L) = label_n L \<and> length (label_d L) = label_n L \<and>
     (\<forall>u < label_n L. length (label_v L ! u) = 2 \<and> length (label_d L ! u) = 2 \<and>
        (\<forall>s < 2. length (label_v L ! u ! s) = length (label_d L ! u ! s)))"

text \<open>
  The merge loop of \<^verbatim>\<open>query\<close> on the two hub arrays \<open>vu\<close>, \<open>vv\<close> and the two distance
  arrays \<open>du\<close>, \<open>dv\<close>, with the loop variables \<open>i\<close>, \<open>j\<close>, \<open>r\<close>.
  \<^verbatim>\<open>assert(label_d[u][f][i] < infty - label_d[v][!f][j])\<close> guards the addition.
\<close>

function query_loop ::
  "Vertex list \<Rightarrow> Distance list \<Rightarrow> Vertex list \<Rightarrow> Distance list \<Rightarrow> nat \<Rightarrow> nat \<Rightarrow> Distance
     \<Rightarrow> error + Distance" where
  "query_loop vu du vv dv i j r =
     (if i < length vu \<and> j < length vv then
        (if vu ! i = vv ! j then
           (if du ! i < infty - dv ! j
            then query_loop vu du vv dv (i + 1) (j + 1) (min r (du ! i + dv ! j))
            else Inl AssertionFailed)
         else if vu ! i < vv ! j then query_loop vu du vv dv (i + 1) j r
         else query_loop vu du vv dv i (j + 1) r)
      else Inr r)"
  by pat_completeness auto
termination
  by (relation "measure (\<lambda>(vu, du, vv, dv, i, j, r). (length vu - i) + (length vv - j))") auto

declare query_loop.simps [simp del]

definition query :: "Labeling \<Rightarrow> Vertex \<Rightarrow> Vertex \<Rightarrow> bool \<Rightarrow> error + Distance" where
  "query L u v f = query_loop (hubs L u f) (dists L u f) (hubs L v (\<not> f)) (dists L v (\<not> f)) 0 0 infty"

text \<open>\<^verbatim>\<open>add(u, forward, v, d)\<close> appends hub \<open>v\<close> at distance \<open>d\<close> to one label of \<open>u\<close>.\<close>

definition add :: "Vertex \<Rightarrow> bool \<Rightarrow> Vertex \<Rightarrow> Distance \<Rightarrow> Labeling \<Rightarrow> Labeling" where
  "add u forward v d L =
     L\<lparr> label_v := (label_v L)[u := (label_v L ! u)[side forward := label_v L ! u ! side forward @ [v]]],
        label_d := (label_d L)[u := (label_d L ! u)[side forward := label_d L ! u ! side forward @ [d]]] \<rparr>"

text \<open>\<^verbatim>\<open>clear()\<close> empties both labels of every vertex below \<open>n\<close>.\<close>

definition clear_rows :: "nat \<Rightarrow> 'a list list list \<Rightarrow> 'a list list list" where
  "clear_rows m rows = fold (\<lambda>v rs. rs[v := ((rs ! v)[0 := []])[1 := []]]) [0..<m] rows"

definition clear :: "Labeling \<Rightarrow> Labeling" where
  "clear L = L\<lparr> label_v := clear_rows (label_n L) (label_v L),
               label_d := clear_rows (label_n L) (label_d L) \<rparr>"

text \<open>
  The common hubs of two labels, as the set of sums \<open>d\<^sub>u + d\<^sub>v\<close> taken at equal hub
  ids from position \<open>i\<close> of the first and \<open>j\<close> of the second label on.
\<close>

definition common_sums ::
  "Vertex list \<Rightarrow> Distance list \<Rightarrow> Vertex list \<Rightarrow> Distance list \<Rightarrow> nat \<Rightarrow> nat \<Rightarrow> Distance set" where
  "common_sums vu du vv dv i j =
     {du ! a + dv ! b | a b. i \<le> a \<and> a < length vu \<and> j \<le> b \<and> b < length vv \<and> vu ! a = vv ! b}"

section \<open>The merge query\<close>

lemma finite_common_sums: "finite (common_sums vu du vv dv i j)"
proof -
  have "common_sums vu du vv dv i j \<subseteq> (\<lambda>(a, b). du ! a + dv ! b) ` ({..<length vu} \<times> {..<length vv})"
    by (auto simp: common_sums_def)
  then show ?thesis
    by (rule finite_subset) simp
qed

lemma common_sums_skip_left:
  assumes "sorted_wrt (<) vv" "i < length vu" "j < length vv" "vu ! i < vv ! j"
  shows "common_sums vu du vv dv i j = common_sums vu du vv dv (Suc i) j"
proof -
  have "vu ! i \<noteq> vv ! b" if "j \<le> b" "b < length vv" for b
  proof -
    have "vv ! j \<le> vv ! b"
      using that assms(1,3) by (cases "j = b") (auto simp: sorted_wrt_iff_nth_less less_imp_le)
    with assms(4) show ?thesis by simp
  qed
  then have "\<And>a b. i \<le> a \<Longrightarrow> j \<le> b \<Longrightarrow> b < length vv \<Longrightarrow> vu ! a = vv ! b \<Longrightarrow> Suc i \<le> a"
    by (metis Suc_leI le_neq_implies_less)
  then show ?thesis
    unfolding common_sums_def by (auto intro: Suc_leD)
qed

lemma common_sums_skip_right:
  assumes "sorted_wrt (<) vu" "i < length vu" "j < length vv" "vv ! j < vu ! i"
  shows "common_sums vu du vv dv i j = common_sums vu du vv dv i (Suc j)"
proof -
  have "vu ! a \<noteq> vv ! j" if "i \<le> a" "a < length vu" for a
  proof -
    have "vu ! i \<le> vu ! a"
      using that assms(1,2) by (cases "i = a") (auto simp: sorted_wrt_iff_nth_less less_imp_le)
    with assms(4) show ?thesis by simp
  qed
  then have "\<And>a b. i \<le> a \<Longrightarrow> j \<le> b \<Longrightarrow> a < length vu \<Longrightarrow> vu ! a = vv ! b \<Longrightarrow> Suc j \<le> b"
    by (metis Suc_leI le_neq_implies_less)
  then show ?thesis
    unfolding common_sums_def by (auto intro: Suc_leD)
qed

lemma sorted_wrt_less_nth_inj:
  fixes xs :: "nat list"
  assumes "sorted_wrt (<) xs" "a < length xs" "b < length xs" "xs ! a = xs ! b"
  shows "a = b"
proof (rule ccontr)
  assume "a \<noteq> b"
  then consider "a < b" | "b < a" by linarith
  then show False
    using assms sorted_wrt_nth_less [of "(<)" xs a b] sorted_wrt_nth_less [of "(<)" xs b a]
    by cases auto
qed

lemma common_sums_match:
  assumes "sorted_wrt (<) vu" "sorted_wrt (<) vv" "i < length vu" "j < length vv" "vu ! i = vv ! j"
  shows "common_sums vu du vv dv i j = insert (du ! i + dv ! j) (common_sums vu du vv dv (Suc i) (Suc j))"
proof -
  have eq: "a = i \<longleftrightarrow> b = j" if "a < length vu" "b < length vv" "vu ! a = vv ! b" for a b
    using that assms sorted_wrt_less_nth_inj [of vu a i] sorted_wrt_less_nth_inj [of vv b j]
    by auto
  show ?thesis
  proof (rule set_eqI, rule iffI)
    fix s assume "s \<in> common_sums vu du vv dv i j"
    then obtain a b where ab: "s = du ! a + dv ! b" "i \<le> a" "a < length vu" "j \<le> b"
      "b < length vv" "vu ! a = vv ! b"
      by (auto simp: common_sums_def)
    show "s \<in> insert (du ! i + dv ! j) (common_sums vu du vv dv (Suc i) (Suc j))"
    proof (cases "a = i")
      case True
      with eq ab show ?thesis by auto
    next
      case False
      with ab have "Suc i \<le> a" by simp
      moreover from eq [OF ab(3,5,6)] False ab(4) have "Suc j \<le> b" by simp
      ultimately show ?thesis using ab unfolding common_sums_def by blast
    qed
  next
    fix s assume "s \<in> insert (du ! i + dv ! j) (common_sums vu du vv dv (Suc i) (Suc j))"
    then show "s \<in> common_sums vu du vv dv i j"
      using assms(3-5) unfolding common_sums_def by (auto intro: Suc_leD)
  qed
qed

lemma common_sums_empty:
  "\<not> (i < length vu \<and> j < length vv) \<Longrightarrow> common_sums vu du vv dv i j = {}"
  by (auto simp: common_sums_def)

lemma query_loop_Min:
  assumes "sorted_wrt (<) vu" "sorted_wrt (<) vv"
    and "\<forall>s \<in> common_sums vu du vv dv i j. s < infty"
  shows "query_loop vu du vv dv i j r = Inr (Min (insert r (common_sums vu du vv dv i j)))"
  using assms
proof (induction vu du vv dv i j r rule: query_loop.induct)
  case (1 vu du vv dv i j r)
  show ?case
  proof (cases "i < length vu \<and> j < length vv")
    case False
    then show ?thesis
      by (subst query_loop.simps) (auto simp: common_sums_empty)
  next
    case inr: True
    show ?thesis
    proof (cases "vu ! i = vv ! j")
      case True
      have split: "common_sums vu du vv dv i j
          = insert (du ! i + dv ! j) (common_sums vu du vv dv (Suc i) (Suc j))"
        using common_sums_match [OF "1.prems"(1,2)] inr True by blast
      then have guard: "du ! i < infty - dv ! j"
        using "1.prems"(3) by (simp add: less_diff_conv)
      have "query_loop vu du vv dv (i + 1) (j + 1) (min r (du ! i + dv ! j))
          = Inr (Min (insert (min r (du ! i + dv ! j)) (common_sums vu du vv dv (i + 1) (j + 1))))"
        using "1.IH"(1) [OF inr True guard "1.prems"(1,2)] "1.prems"(3) split by simp
      moreover have "Min (insert (min r (du ! i + dv ! j)) (common_sums vu du vv dv (Suc i) (Suc j)))
          = Min (insert r (common_sums vu du vv dv i j))"
        unfolding split using finite_common_sums [of vu du vv dv "Suc i" "Suc j"]
        by (cases "common_sums vu du vv dv (Suc i) (Suc j) = {}") (simp_all add: min.assoc)
      ultimately show ?thesis
        using inr True guard by (subst query_loop.simps) simp
    next
      case ne: False
      show ?thesis
      proof (cases "vu ! i < vv ! j")
        case True
        have eq: "common_sums vu du vv dv i j = common_sums vu du vv dv (Suc i) j"
          using common_sums_skip_left [OF "1.prems"(2)] inr True by blast
        show ?thesis
          using "1.IH"(2) [OF inr ne True "1.prems"(1,2)] "1.prems"(3) inr ne True eq
          by (subst query_loop.simps) simp
      next
        case False
        with ne have lt: "vv ! j < vu ! i" by simp
        have eq: "common_sums vu du vv dv i j = common_sums vu du vv dv i (Suc j)"
          using common_sums_skip_right [OF "1.prems"(1)] inr lt by blast
        show ?thesis
          using "1.IH"(3) [OF inr ne False "1.prems"(1,2)] "1.prems"(3) inr ne False eq
          by (subst query_loop.simps) simp
      qed
    qed
  qed
qed

text \<open>
  Claim C2. If the hub lists \<open>L[u][f]\<close> and \<open>L[v][\<not>f]\<close> are strictly increasing by hub id
  and every pair of entries at a common hub satisfies \<open>d\<^sub>u + d\<^sub>v < INFTY\<close>, then
  \<open>query(u, v, f)\<close> returns (no assertion fails) the minimum of \<open>d\<^sub>u + d\<^sub>v\<close> over the
  common hubs, and \<open>INFTY\<close> when the two lists share no hub. The labeling satisfies the
  representation invariant of the class and \<open>u\<close>, \<open>v\<close> are vertices of it, so that every
  array read of the loop is in range.
\<close>

theorem query_min_over_common_hubs:
  assumes "labeling_inv L" "u < label_n L" "v < label_n L"
    and "sorted_wrt (<) (hubs L u f)" "sorted_wrt (<) (hubs L v (\<not> f))"
    and "\<forall>a b. a < length (hubs L u f) \<and> b < length (hubs L v (\<not> f))
            \<and> hubs L u f ! a = hubs L v (\<not> f) ! b
          \<longrightarrow> dists L u f ! a + dists L v (\<not> f) ! b < infty"
  shows "query L u v f =
     Inr (if common_sums (hubs L u f) (dists L u f) (hubs L v (\<not> f)) (dists L v (\<not> f)) 0 0 = {}
          then infty
          else Min (common_sums (hubs L u f) (dists L u f) (hubs L v (\<not> f)) (dists L v (\<not> f)) 0 0))"
proof -
  let ?S = "common_sums (hubs L u f) (dists L u f) (hubs L v (\<not> f)) (dists L v (\<not> f)) 0 0"
  have lt: "\<forall>s \<in> ?S. s < infty"
    using assms(6) by (auto simp: common_sums_def)
  have "query L u v f = Inr (Min (insert infty ?S))"
    unfolding query_def by (rule query_loop_Min [OF assms(4,5) lt])
  moreover have "Min (insert infty ?S) = Min ?S" if "?S \<noteq> {}"
  proof -
    have "Min ?S \<in> ?S"
      using that finite_common_sums by (intro Min_in)
    with lt have "Min ?S < infty" by blast
    moreover have "Min (insert infty ?S) = min infty (Min ?S)"
      using that finite_common_sums by (intro Min_insert)
    ultimately show ?thesis by simp
  qed
  ultimately show ?thesis by auto
qed

text \<open>A two-vertex labeling: vertex 0 has forward hubs 0 and 1, vertex 1 has reverse hub 1.\<close>

definition L_two :: Labeling where
  "L_two = \<lparr> label_v = [[[], [0, 1]], [[1], []]], label_d = [[[], [0, 5]], [[0], []]], label_n = 2 \<rparr>"

lemma less_2_cases': "s < (2::nat) \<longleftrightarrow> s = 0 \<or> s = 1"
  by auto

theorem query_min_over_common_hubs_witness:
  "labeling_inv L_two \<and> (0::nat) < label_n L_two \<and> (1::nat) < label_n L_two
   \<and> sorted_wrt (<) (hubs L_two 0 True) \<and> sorted_wrt (<) (hubs L_two 1 False)
   \<and> query L_two 0 1 True = Inr 5"
proof -
  have inv: "labeling_inv L_two"
    by (simp add: labeling_inv_def L_two_def less_2_cases' nth_Cons')
  have h: "hubs L_two 0 True = [0, 1]" "hubs L_two 1 False = [1]"
    "dists L_two 0 True = [0, 5]" "dists L_two 1 False = [0]"
    "hubs L_two 1 (\<not> True) = [1]" "dists L_two 1 (\<not> True) = [0]"
    by (simp_all add: hubs_def dists_def L_two_def side_def)
  have S: "common_sums [0, 1] [0, 5] [1] [0] 0 0 = {5}"
    by (auto simp: common_sums_def nth_Cons' less_2_cases' split: if_splits)
  have ov: "\<forall>a b. a < length (hubs L_two 0 True) \<and> b < length (hubs L_two 1 (\<not> True))
            \<and> hubs L_two 0 True ! a = hubs L_two 1 (\<not> True) ! b
          \<longrightarrow> dists L_two 0 True ! a + dists L_two 1 (\<not> True) ! b < infty"
    unfolding h by (auto simp: nth_Cons' infty_def)
  have n: "label_n L_two = 2"
    by (simp add: L_two_def)
  show ?thesis
    using query_min_over_common_hubs [of L_two 0 1 True, OF inv _ _ _ _ ov] S inv
    unfolding h by (simp add: n)
qed

text \<open>
  \<^verbatim>\<open>sort()\<close>: for every vertex and side the label is copied into a vector of
  (hub, distance) pairs, sorted by \<^verbatim>\<open>std::sort\<close> with the lexicographic order of
  \<^verbatim>\<open>std::pair\<close>, and written back. The order on pairs is total, so the sorted vector is
  determined by its contents.
\<close>

definition sort_side :: "Vertex \<Rightarrow> nat \<Rightarrow> Labeling \<Rightarrow> Labeling" where
  "sort_side v s L =
     (let label = map (\<lambda>i. (label_v L ! v ! s ! i, label_d L ! v ! s ! i)) [0..<length (label_v L ! v ! s)];
          label = sort label
      in L\<lparr> label_v := (label_v L)[v := (label_v L ! v)[s := map (\<lambda>i. fst (label ! i)) [0..<length (label_v L ! v ! s)]]],
            label_d := (label_d L)[v := (label_d L ! v)[s := map (\<lambda>i. snd (label ! i)) [0..<length (label_v L ! v ! s)]]] \<rparr>)"

definition sort_row :: "Vertex \<Rightarrow> Labeling \<Rightarrow> Labeling" where
  "sort_row v L = fold (sort_side v) [0, 1] L"

definition sort_labels :: "Labeling \<Rightarrow> Labeling" where
  "sort_labels L = fold sort_row [0..<label_n L] L"

text \<open>The labelings built from the constructor by \<^verbatim>\<open>add\<close> calls on vertices of the labeling.\<close>

inductive reachable_by_add :: "nat \<Rightarrow> Labeling \<Rightarrow> bool" for m :: nat where
  new: "reachable_by_add m (Labeling_new m)"
| add: "reachable_by_add m L \<Longrightarrow> u < m \<Longrightarrow> reachable_by_add m (add u f h d L)"

lemma side_less_2 [simp]: "side f < 2"
  by (simp add: side_def)

lemma nth_slot_update:
  "u < length rows \<Longrightarrow> t < length (rows ! u) \<Longrightarrow>
   rows[v := (rows ! v)[s := x]] ! u ! t = (if u = v \<and> t = s then x else rows ! u ! t)"
  by (cases "u = v") (auto simp: nth_list_update)

lemma length_slot_update:
  "u < length rows \<Longrightarrow> length (rows[v := (rows ! v)[s := x]] ! u) = length (rows ! u)"
  by (cases "u = v") auto

lemma label_n_new [simp]: "label_n (Labeling_new m) = m"
  by (simp add: Labeling_new_def)

lemma labeling_inv_new: "labeling_inv (Labeling_new m)"
  by (auto simp: labeling_inv_def Labeling_new_def less_2_cases' nth_Cons')

lemma label_n_add [simp]: "label_n (add u f h d L) = label_n L"
  by (simp add: add_def)

lemma labeling_inv_add:
  assumes "labeling_inv L"
  shows "labeling_inv (add u f h d L)"
proof -
  have lens: "length (label_v L) = label_n L" "length (label_d L) = label_n L"
    and rows: "\<And>w. w < label_n L \<Longrightarrow> length (label_v L ! w) = 2 \<and> length (label_d L ! w) = 2"
    and slots: "\<And>w t. w < label_n L \<Longrightarrow> t < 2 \<Longrightarrow> length (label_v L ! w ! t) = length (label_d L ! w ! t)"
    using assms by (auto simp: labeling_inv_def)
  have "length (label_v (add u f h d L) ! w ! t) = length (label_d (add u f h d L) ! w ! t)"
    if "w < label_n L" "t < 2" for w t
    using that lens rows [OF that(1)] slots [OF that] slots [of u "side f"]
    by (simp add: add_def nth_slot_update)
  moreover have "length (label_v (add u f h d L) ! w) = 2 \<and> length (label_d (add u f h d L) ! w) = 2"
    if "w < label_n L" for w
    using that lens rows [OF that] by (simp add: add_def length_slot_update)
  ultimately show ?thesis
    using lens by (simp add: labeling_inv_def) (simp add: add_def)
qed

lemma reachable_by_add_inv: "reachable_by_add m L \<Longrightarrow> labeling_inv L \<and> label_n L = m"
  by (induction rule: reachable_by_add.induct) (simp_all add: labeling_inv_new labeling_inv_add)

text \<open>A label as the list of its (hub, distance) entries.\<close>

definition label :: "Labeling \<Rightarrow> Vertex \<Rightarrow> nat \<Rightarrow> (Vertex \<times> Distance) list" where
  "label L u s = zip (label_v L ! u ! s) (label_d L ! u ! s)"

lemma label_n_sort_side [simp]: "label_n (sort_side v s L) = label_n L"
  by (simp add: sort_side_def Let_def)

lemma map_nth_zip:
  "length xs = length ys \<Longrightarrow> map (\<lambda>i. (xs ! i, ys ! i)) [0..<length xs] = zip xs ys"
  by (auto intro: nth_equalityI)

lemma sort_side_eq:
  assumes "length (label_v L ! v ! s) = length (label_d L ! v ! s)"
  shows "sort_side v s L =
     L\<lparr> label_v := (label_v L)[v := (label_v L ! v)[s := map fst (sort (label L v s))]],
        label_d := (label_d L)[v := (label_d L ! v)[s := map snd (sort (label L v s))]] \<rparr>"
proof -
  let ?n = "length (label_v L ! v ! s)"
  have z: "map (\<lambda>i. (label_v L ! v ! s ! i, label_d L ! v ! s ! i)) [0..<?n] = label L v s"
    unfolding label_def by (rule map_nth_zip [OF assms])
  have l: "length (sort (label L v s)) = ?n"
    using assms by (simp add: label_def)
  have "map (\<lambda>i. fst (sort (label L v s) ! i)) [0..<?n] = map fst (sort (label L v s))"
    "map (\<lambda>i. snd (sort (label L v s) ! i)) [0..<?n] = map snd (sort (label L v s))"
    using l by (auto intro!: nth_equalityI)
  then show ?thesis
    unfolding sort_side_def Let_def z by simp
qed

lemma labeling_inv_sort_side:
  assumes "labeling_inv L" "v < label_n L" "s < 2"
  shows "labeling_inv (sort_side v s L)"
proof -
  have lens: "length (label_v L) = label_n L" "length (label_d L) = label_n L"
    and rows: "\<And>w. w < label_n L \<Longrightarrow> length (label_v L ! w) = 2 \<and> length (label_d L ! w) = 2"
    and slots: "\<And>w t. w < label_n L \<Longrightarrow> t < 2 \<Longrightarrow> length (label_v L ! w ! t) = length (label_d L ! w ! t)"
    using assms(1) by (auto simp: labeling_inv_def)
  note eq = sort_side_eq [OF slots [OF assms(2,3)]]
  have "length (label_v (sort_side v s L) ! w ! t) = length (label_d (sort_side v s L) ! w ! t)"
    if "w < label_n L" "t < 2" for w t
    using that lens rows [OF that(1)] slots [OF that]
    by (simp add: eq nth_slot_update)
  moreover have "length (label_v (sort_side v s L) ! w) = 2 \<and> length (label_d (sort_side v s L) ! w) = 2"
    if "w < label_n L" for w
    using that lens rows [OF that] by (simp add: eq length_slot_update)
  ultimately show ?thesis
    using lens by (simp add: labeling_inv_def) (simp add: eq)
qed

lemma sort_side_label:
  assumes "labeling_inv L" "v < label_n L" "s < 2" "u < label_n L" "t < 2"
  shows "label (sort_side v s L) u t = (if u = v \<and> t = s then sort (label L v s) else label L u t)"
proof -
  have lens: "length (label_v L) = label_n L" "length (label_d L) = label_n L"
    and rows: "\<And>w. w < label_n L \<Longrightarrow> length (label_v L ! w) = 2 \<and> length (label_d L ! w) = 2"
    and slots: "\<And>w t. w < label_n L \<Longrightarrow> t < 2 \<Longrightarrow> length (label_v L ! w ! t) = length (label_d L ! w ! t)"
    using assms(1) by (auto simp: labeling_inv_def)
  note eq = sort_side_eq [OF slots [OF assms(2,3)]]
  have v: "label_v (sort_side v s L) ! u ! t
      = (if u = v \<and> t = s then map fst (sort (label L v s)) else label_v L ! u ! t)"
    unfolding eq using nth_slot_update [of u "label_v L" t v s] lens rows [OF assms(4)] assms(4,5)
    by simp
  have d: "label_d (sort_side v s L) ! u ! t
      = (if u = v \<and> t = s then map snd (sort (label L v s)) else label_d L ! u ! t)"
    unfolding eq using nth_slot_update [of u "label_d L" t v s] lens rows [OF assms(4)] assms(4,5)
    by simp
  show ?thesis
    unfolding label_def [of "sort_side v s L"] v d
    by (simp add: zip_map_fst_snd) (simp add: label_def)
qed


lemma sort_row_label:
  assumes "labeling_inv L" "v < label_n L"
  shows "labeling_inv (sort_row v L)"
    and "label_n (sort_row v L) = label_n L"
    and "\<And>u t. u < label_n L \<Longrightarrow> t < 2 \<Longrightarrow>
           label (sort_row v L) u t = (if u = v then sort (label L u t) else label L u t)"
proof -
  have eq: "sort_row v L = sort_side v 1 (sort_side v 0 L)"
    by (simp add: sort_row_def)
  have i0: "labeling_inv (sort_side v 0 L)"
    using assms by (simp add: labeling_inv_sort_side)
  then show "labeling_inv (sort_row v L)"
    unfolding eq using assms by (simp add: labeling_inv_sort_side)
  show "label_n (sort_row v L) = label_n L"
    unfolding eq by simp
  fix u t :: nat assume ut: "u < label_n L" "t < 2"
  have "label (sort_side v 1 (sort_side v 0 L)) u t
      = (if u = v \<and> t = 1 then sort (label (sort_side v 0 L) v 1) else label (sort_side v 0 L) u t)"
    using sort_side_label [OF i0, of v 1 u t] assms ut by simp
  also have "\<dots> = (if u = v then sort (label L u t) else label L u t)"
    using sort_side_label [OF assms(1), of v 0 u t] sort_side_label [OF assms(1), of v 0 v 1]
      assms ut
    by (auto simp: less_2_cases')
  finally show "label (sort_row v L) u t = (if u = v then sort (label L u t) else label L u t)"
    unfolding eq .
qed

lemma sort_rows_upto:
  assumes "labeling_inv L" "k \<le> label_n L"
  shows "labeling_inv (fold sort_row [0..<k] L)
    \<and> label_n (fold sort_row [0..<k] L) = label_n L
    \<and> (\<forall>u < label_n L. \<forall>t < 2.
         label (fold sort_row [0..<k] L) u t = (if u < k then sort (label L u t) else label L u t))"
  using assms(2)
proof (induction k)
  case 0
  then show ?case using assms(1) by simp
next
  case (Suc k)
  let ?M = "fold sort_row [0..<k] L"
  have M: "labeling_inv ?M" "label_n ?M = label_n L"
    and lab: "\<And>u t. u < label_n L \<Longrightarrow> t < 2 \<Longrightarrow>
        label ?M u t = (if u < k then sort (label L u t) else label L u t)"
    using Suc by auto
  have k: "k < label_n ?M"
    using Suc.prems M by simp
  have step: "fold sort_row [0..<Suc k] L = sort_row k ?M"
    by simp
  have "label (sort_row k ?M) u t = (if u < Suc k then sort (label L u t) else label L u t)"
    if "u < label_n L" "t < 2" for u t
    using sort_row_label(3) [OF M(1) k, of u t] that M(2) lab [OF that]
    by (auto simp: less_Suc_eq)
  then show ?case
    unfolding step using sort_row_label(1,2) [OF M(1) k] M(2) by simp
qed

lemma sort_labels_label:
  assumes "labeling_inv L" "u < label_n L" "t < 2"
  shows "label (sort_labels L) u t = sort (label L u t)"
    and "labeling_inv (sort_labels L)" and "label_n (sort_labels L) = label_n L"
  using sort_rows_upto [OF assms(1) order_refl] assms(2,3)
  by (simp_all add: sort_labels_def)

lemma hubs_label:
  assumes "labeling_inv L" "u < label_n L"
  shows "hubs L u f = map fst (label L u (side f))"
  using assms by (simp add: hubs_def label_def labeling_inv_def)

lemma sorted_map_fst_lex:
  fixes xs :: "(nat \<times> nat) list"
  shows "sorted xs \<Longrightarrow> sorted (map fst xs)"
  unfolding sorted_map
  by (erule sorted_wrt_mono_rel [rotated]) (auto simp: less_eq_prod_def)

text \<open>
  Claim C7, as amended. In a labeling built from the constructor by \<^verbatim>\<open>add\<close> calls,
  after \<^verbatim>\<open>sort()\<close> every hub list is non-decreasing in hub id; it is strictly
  increasing exactly when no hub id was added twice to that list.
\<close>

theorem sort_labels_hubs_sorted:
  assumes "reachable_by_add m L" "u < m"
  shows "sorted (hubs (sort_labels L) u f)
     \<and> (sorted_wrt (<) (hubs (sort_labels L) u f) \<longleftrightarrow> distinct (hubs L u f))"
proof -
  have inv: "labeling_inv L" and u: "u < label_n L"
    using reachable_by_add_inv [OF assms(1)] assms(2) by simp_all
  have h: "hubs (sort_labels L) u f = map fst (sort (label L u (side f)))"
    using hubs_label [of "sort_labels L" u f] sort_labels_label [OF inv u, of "side f"] u
    by simp
  have s: "sorted (map fst (sort (label L u (side f))))"
    by (rule sorted_map_fst_lex) simp
  have "mset (map fst (sort (label L u (side f)))) = mset (hubs L u f)"
    by (simp add: hubs_label [OF inv u])
  then have "distinct (map fst (sort (label L u (side f)))) \<longleftrightarrow> distinct (hubs L u f)"
    by (rule mset_eq_imp_distinct_iff)
  with s show ?thesis
    unfolding h by (simp add: strict_sorted_iff)
qed

theorem sort_labels_hubs_sorted_witness:
  "reachable_by_add 1 (add 0 True 7 2 (add 0 True 3 1 (Labeling_new 1))) \<and> (0::nat) < 1
   \<and> distinct (hubs (add 0 True 7 2 (add 0 True 3 1 (Labeling_new 1))) 0 True)
   \<and> sorted_wrt (<) (hubs (sort_labels (add 0 True 7 2 (add 0 True 3 1 (Labeling_new 1)))) 0 True)"
proof -
  have r: "reachable_by_add 1 (add 0 True 7 2 (add 0 True 3 1 (Labeling_new 1)))"
    by (intro reachable_by_add.intros) simp_all
  have d: "distinct (hubs (add 0 True 7 2 (add 0 True 3 1 (Labeling_new 1))) 0 True)"
    by (simp add: hubs_def add_def Labeling_new_def side_def)
  show ?thesis
    using sort_labels_hubs_sorted [OF r, of 0 True] r d by simp
qed

text \<open>
  Claim C7 as stated fails: the same hub added twice to one label stays twice in it, and
  the sorted hub list \<open>[5, 5]\<close> is not strictly increasing.
\<close>

theorem sort_labels_strict_counterexample:
  "reachable_by_add 1 (add 0 True 5 2 (add 0 True 5 1 (Labeling_new 1)))
   \<and> hubs (sort_labels (add 0 True 5 2 (add 0 True 5 1 (Labeling_new 1)))) 0 True = [5, 5]
   \<and> \<not> sorted_wrt (<) (hubs (sort_labels (add 0 True 5 2 (add 0 True 5 1 (Labeling_new 1)))) 0 True)"
proof -
  have r: "reachable_by_add 1 (add 0 True 5 2 (add 0 True 5 1 (Labeling_new 1)))"
    by (intro reachable_by_add.intros) simp_all
  have h: "hubs (sort_labels (add 0 True 5 2 (add 0 True 5 1 (Labeling_new 1)))) 0 True = [5, 5]"
    by code_simp
  show ?thesis
    using r unfolding h by simp
qed

section \<open>k-way heap (kheap.hpp)\<close>

text \<open>
  \<^verbatim>\<open>template<typename V, typename K, unsigned k = 4> class KHeap\<close> with elements
  \<^verbatim>\<open>V = Vertex\<close>. The branching factor \<open>k\<close> is a parameter of every operation. The
  sentinel \<^verbatim>\<open>invalid\<close> of \<^verbatim>\<open>heap_pos\<close> is \<open>None\<close>. The field \<^verbatim>\<open>size\<close> is
  \<open>size_h\<close>.
\<close>

record 'k KHeap =
  size_h :: nat
  heap :: "Vertex list"
  heap_pos :: "nat option list"
  key :: "'k list"

text \<open>\<^verbatim>\<open>KHeap(size_t n)\<close>: vectors of length \<open>n\<close>, value-initialised.\<close>

definition KHeap_new :: "nat \<Rightarrow> ('k::zero) KHeap" where
  "KHeap_new m = \<lparr> size_h = 0, heap = replicate m 0, heap_pos = replicate m None, key = replicate m 0 \<rparr>"

text \<open>\<^verbatim>\<open>swap(i, j)\<close>: two \<^verbatim>\<open>std::swap\<close> calls, on \<^verbatim>\<open>heap_pos\<close> and then on \<^verbatim>\<open>heap\<close>.\<close>

definition swap :: "nat \<Rightarrow> nat \<Rightarrow> 'k KHeap \<Rightarrow> 'k KHeap" where
  "swap i j h =
     h\<lparr> heap_pos := (heap_pos h)[heap h ! i := heap_pos h ! (heap h ! j),
                                  heap h ! j := heap_pos h ! (heap h ! i)],
        heap := (heap h)[i := heap h ! j, j := heap h ! i] \<rparr>"

text \<open>\<^verbatim>\<open>kid(i)\<close>: the loop over \<open>j\<close> with the running minimum \<open>m\<close>.\<close>

function kid_loop :: "nat \<Rightarrow> ('k::linorder) KHeap \<Rightarrow> nat \<Rightarrow> nat \<Rightarrow> nat \<Rightarrow> nat" where
  "kid_loop k h c0 j m =
     (if j < k \<and> c0 + j < size_h h
      then kid_loop k h c0 (j + 1) (if key h ! (heap h ! (c0 + j)) < key h ! (heap h ! (c0 + m)) then j else m)
      else c0 + m)"
  by pat_completeness auto
termination
  by (relation "measure (\<lambda>(k, h, c0, j, m). k - j)") auto

declare kid_loop.simps [simp del]

definition kid :: "nat \<Rightarrow> ('k::linorder) KHeap \<Rightarrow> nat \<Rightarrow> nat" where
  "kid k h i = kid_loop k h (i * k + 1) 1 0"

lemma kid_loop_ge: "c0 \<le> kid_loop k h c0 j m"
proof (induction k h c0 j m rule: kid_loop.induct)
  case (1 k h c0 j m)
  show ?case
    by (subst kid_loop.simps) (use 1 in simp)
qed

lemma kid_ge: "i * k + 1 \<le> kid k h i"
  by (simp add: kid_def kid_loop_ge)

lemma size_h_swap [simp]: "size_h (swap i j h) = size_h h"
  by (simp add: swap_def)

text \<open>\<^verbatim>\<open>fixup(i)\<close>: the first loop moves \<^verbatim>\<open>heap[i]\<close> down, the second moves it up.\<close>

function fixup_down :: "nat \<Rightarrow> ('k::linorder) KHeap \<Rightarrow> nat \<Rightarrow> 'k KHeap \<times> nat" where
  "fixup_down k h i =
     (if i * k + 1 < size_h h \<and> key h ! (heap h ! i) > key h ! (heap h ! kid k h i)
      then fixup_down k (swap i (kid k h i) h) (kid k h i)
      else (h, i))"
  by pat_completeness auto
termination
proof (relation "measure (\<lambda>(k, h, i). if k = 0 then (if i = 1 then 0 else 1) else size_h h - i)", goal_cases)
  case 1
  then show ?case by simp
next
  case (2 k h i)
  show ?case
  proof (cases "k = 0")
    case True
    have "kid 0 h i = 1"
      by (simp add: kid_def kid_loop.simps)
    with 2 True show ?thesis by auto
  next
    case False
    have "i < kid k h i"
      using kid_ge [of i k h] False by (cases k) auto
    moreover have "i \<le> i * k"
      using False by simp
    then have "i < size_h h"
      using 2 by linarith
    ultimately show ?thesis using False by simp
  qed
qed

declare fixup_down.simps [simp del]

function fixup_up :: "nat \<Rightarrow> ('k::linorder) KHeap \<Rightarrow> nat \<Rightarrow> 'k KHeap" where
  "fixup_up k h i =
     (if i > 0 \<and> key h ! (heap h ! i) < key h ! (heap h ! ((i - 1) div k))
      then fixup_up k (swap i ((i - 1) div k) h) ((i - 1) div k)
      else h)"
  by pat_completeness auto
termination
  by (relation "measure (\<lambda>(k, h, i). i)") (auto intro: le_less_trans [OF div_le_dividend])

declare fixup_up.simps [simp del]

definition fixup :: "nat \<Rightarrow> ('k::linorder) KHeap \<Rightarrow> nat \<Rightarrow> 'k KHeap" where
  "fixup k h i = (case fixup_down k h i of (h', i') \<Rightarrow> fixup_up k h' i')"

definition empty :: "'k KHeap \<Rightarrow> bool" where
  "empty h \<longleftrightarrow> size_h h = 0"

definition top :: "'k KHeap \<Rightarrow> Vertex" where
  "top h = heap h ! 0"

text \<open>
  \<^verbatim>\<open>update(v, kk)\<close>: an absent \<open>v\<close> is placed at position \<^verbatim>\<open>size++\<close>; then the key is
  stored and the element moved.
\<close>

definition update :: "nat \<Rightarrow> Vertex \<Rightarrow> 'k \<Rightarrow> ('k::linorder) KHeap \<Rightarrow> 'k KHeap" where
  "update k v kk h =
     (let h1 = (if heap_pos h ! v = None
                then h\<lparr> heap_pos := (heap_pos h)[v := Some (size_h h)],
                        heap := (heap h)[size_h h := v],
                        size_h := size_h h + 1 \<rparr>
                else h);
          h2 = h1\<lparr> key := (key h1)[v := kk] \<rparr>
      in fixup k h2 (the (heap_pos h2 ! v)))"

text \<open>
  \<^verbatim>\<open>extract(v)\<close>: nothing for an absent \<open>v\<close>; otherwise \<^verbatim>\<open>--size\<close>, the last element
  takes the place of \<open>v\<close> and is moved, and \<open>v\<close> is marked absent.
\<close>

definition extract_heap :: "nat \<Rightarrow> Vertex \<Rightarrow> ('k::linorder) KHeap \<Rightarrow> 'k KHeap" where
  "extract_heap k v h =
     (case heap_pos h ! v of
        None \<Rightarrow> h
      | Some pos \<Rightarrow>
          let h1 = h\<lparr> size_h := size_h h - 1 \<rparr>;
              h2 = (if pos < size_h h1 then fixup k (swap pos (size_h h1) h1) pos else h1)
          in h2\<lparr> heap_pos := (heap_pos h2)[v := None] \<rparr>)"

definition pop :: "nat \<Rightarrow> ('k::linorder) KHeap \<Rightarrow> Vertex \<times> 'k KHeap" where
  "pop k h = (let v = top h in (v, extract_heap k v h))"

text \<open>\<^verbatim>\<open>clear()\<close>: marks the elements at positions below \<^verbatim>\<open>size\<close> absent.\<close>

definition clear_heap :: "'k KHeap \<Rightarrow> 'k KHeap" where
  "clear_heap h = h\<lparr> heap_pos := fold (\<lambda>i hp. hp[heap h ! i := None]) [0..<size_h h] (heap_pos h),
                     size_h := 0 \<rparr>"

subsection \<open>Invariants of the heap\<close>

text \<open>The key at a position of the heap array.\<close>

definition kp :: "'k KHeap \<Rightarrow> nat \<Rightarrow> 'k" where
  "kp h p = key h ! (heap h ! p)"

text \<open>
  The index is consistent below \<^verbatim>\<open>size\<close>: the elements there are in range and
  \<^verbatim>\<open>heap_pos\<close> points back at them.
\<close>

definition heap_wf :: "'k KHeap \<Rightarrow> bool" where
  "heap_wf h \<longleftrightarrow>
     length (heap_pos h) = length (heap h) \<and> length (key h) = length (heap h) \<and>
     size_h h \<le> length (heap h) \<and>
     (\<forall>i < size_h h. heap h ! i < length (heap h) \<and> heap_pos h ! (heap h ! i) = Some i)"

text \<open>Every element with a valid entry in \<^verbatim>\<open>heap_pos\<close> is stored below \<^verbatim>\<open>size\<close>.\<close>

definition pos_ok :: "'k KHeap \<Rightarrow> bool" where
  "pos_ok h \<longleftrightarrow>
     (\<forall>v < length (heap h). heap_pos h ! v \<noteq> None \<longrightarrow> v \<in> set (take (size_h h) (heap h)))"

text \<open>The heap order: no element is smaller than its parent.\<close>

definition heap_ord :: "nat \<Rightarrow> ('k::linorder) KHeap \<Rightarrow> bool" where
  "heap_ord k h \<longleftrightarrow> (\<forall>i. 0 < i \<and> i < size_h h \<longrightarrow> kp h ((i - 1) div k) \<le> kp h i)"

definition heap_inv :: "nat \<Rightarrow> ('k::linorder) KHeap \<Rightarrow> bool" where
  "heap_inv k h \<longleftrightarrow> heap_wf h \<and> pos_ok h \<and> heap_ord k h"

text \<open>The elements stored below \<^verbatim>\<open>size\<close>, and the test \<^verbatim>\<open>heap_pos[v] != invalid\<close>.\<close>

definition elems :: "'k KHeap \<Rightarrow> Vertex set" where
  "elems h = set (take (size_h h) (heap h))"

definition present :: "'k KHeap \<Rightarrow> Vertex \<Rightarrow> bool" where
  "present h v \<longleftrightarrow> v < length (heap h) \<and> heap_pos h ! v \<noteq> None"

text \<open>What \<^verbatim>\<open>fixup\<close> leaves alone.\<close>

definition frame :: "'k KHeap \<Rightarrow> 'k KHeap \<Rightarrow> bool" where
  "frame h h' \<longleftrightarrow>
     size_h h' = size_h h \<and> key h' = key h \<and> length (heap h') = length (heap h) \<and>
     length (heap_pos h') = length (heap_pos h) \<and>
     elems h' = elems h \<and>
     (\<forall>p. size_h h \<le> p \<longrightarrow> heap h' ! p = heap h ! p) \<and>
     (\<forall>w. w \<notin> elems h \<longrightarrow> heap_pos h' ! w = heap_pos h ! w)"

lemma frame_refl: "frame h h"
  by (simp add: frame_def)

lemma frame_trans: "frame h h' \<Longrightarrow> frame h' h'' \<Longrightarrow> frame h h''"
  by (simp add: frame_def)

lemma elems_iff:
  assumes "size_h h \<le> length (heap h)"
  shows "v \<in> elems h \<longleftrightarrow> (\<exists>i < size_h h. heap h ! i = v)"
proof -
  have "elems h = nth (heap h) ` {0..<size_h h}"
    unfolding elems_def by (rule nth_image [OF assms, symmetric])
  then show ?thesis by auto
qed

lemma heap_wfD:
  assumes "heap_wf h"
  shows "length (heap_pos h) = length (heap h)" "length (key h) = length (heap h)"
    "size_h h \<le> length (heap h)"
    "\<And>i. i < size_h h \<Longrightarrow> heap h ! i < length (heap h)"
    "\<And>i. i < size_h h \<Longrightarrow> heap_pos h ! (heap h ! i) = Some i"
    "\<And>i. i < size_h h \<Longrightarrow> i < length (heap h)"
  using assms unfolding heap_wf_def by (blast, blast, blast, blast, blast, linarith)

lemma heap_wf_inj:
  assumes "heap_wf h" "i < size_h h" "j < size_h h" "heap h ! i = heap h ! j"
  shows "i = j"
proof -
  have "Some i = heap_pos h ! (heap h ! i)"
    by (rule heap_wfD(5) [OF assms(1,2), symmetric])
  also have "\<dots> = heap_pos h ! (heap h ! j)"
    by (simp only: assms(4))
  also have "\<dots> = Some j"
    by (rule heap_wfD(5) [OF assms(1,3)])
  finally show ?thesis by simp
qed

lemma heap_swap_nth:
  assumes "i < length (heap h)" "j < length (heap h)"
  shows "heap (swap i j h) ! p = (if p = j then heap h ! i else if p = i then heap h ! j else heap h ! p)"
  using assms by (simp add: swap_def nth_list_update)

lemma key_swap [simp]: "key (swap i j h) = key h"
  by (simp add: swap_def)

lemma length_heap_swap [simp]: "length (heap (swap i j h)) = length (heap h)"
  by (simp add: swap_def)

lemma length_heap_pos_swap [simp]: "length (heap_pos (swap i j h)) = length (heap_pos h)"
  by (simp add: swap_def)

lemma kp_swap:
  assumes "i < length (heap h)" "j < length (heap h)"
  shows "kp (swap i j h) p = (if p = j then kp h i else if p = i then kp h j else kp h p)"
  using heap_swap_nth [OF assms, of p] by (simp add: kp_def)

lemma heap_pos_swap_nth:
  assumes "heap_wf h" "i < size_h h" "j < size_h h"
  shows "heap_pos (swap i j h) ! w =
     (if w = heap h ! i then Some j else if w = heap h ! j then Some i else heap_pos h ! w)"
proof -
  have r: "heap h ! i < length (heap_pos h)" "heap h ! j < length (heap_pos h)"
    "heap_pos h ! (heap h ! i) = Some i" "heap_pos h ! (heap h ! j) = Some j"
    using heap_wfD [OF assms(1)] assms(2,3) by simp_all
  show ?thesis
  proof (cases "i = j")
    case True
    then show ?thesis using r by (simp add: swap_def nth_list_update)
  next
    case False
    then have "heap h ! i \<noteq> heap h ! j"
      using heap_wf_inj [OF assms] by blast
    then show ?thesis using r by (simp add: swap_def nth_list_update)
  qed
qed

lemma heap_wf_swap:
  assumes "heap_wf h" "i < size_h h" "j < size_h h"
  shows "heap_wf (swap i j h)"
proof -
  have len: "i < length (heap h)" "j < length (heap h)" "size_h h \<le> length (heap h)"
    using heap_wfD [OF assms(1)] assms(2,3) by simp_all
  have "heap (swap i j h) ! p < length (heap h)
      \<and> heap_pos (swap i j h) ! (heap (swap i j h) ! p) = Some p" if "p < size_h h" for p
  proof -
    have p: "heap h ! p < length (heap h)" "heap_pos h ! (heap h ! p) = Some p"
      "heap h ! i < length (heap h)" "heap h ! j < length (heap h)"
      using heap_wfD [OF assms(1)] that assms(2,3) by simp_all
    have "p \<noteq> i \<Longrightarrow> heap h ! p \<noteq> heap h ! i" "p \<noteq> j \<Longrightarrow> heap h ! p \<noteq> heap h ! j"
      using heap_wf_inj [OF assms(1) that] assms(2,3) by blast+
    then show ?thesis
      using p heap_swap_nth [OF len(1,2), of p] heap_pos_swap_nth [OF assms]
      by auto
  qed
  then show ?thesis
    using heap_wfD(1-3) [OF assms(1)] unfolding heap_wf_def by simp
qed

lemma elems_swap:
  assumes "heap_wf h" "i < size_h h" "j < size_h h"
  shows "elems (swap i j h) = elems h"
proof -
  have len: "i < length (heap h)" "j < length (heap h)" "size_h h \<le> length (heap h)"
    using heap_wfD [OF assms(1)] assms(2,3) by simp_all
  show ?thesis
  proof (rule set_eqI)
    fix v
    have "(\<exists>p < size_h h. heap (swap i j h) ! p = v) \<longleftrightarrow> (\<exists>p < size_h h. heap h ! p = v)"
      (is "?l \<longleftrightarrow> ?r")
    proof
      assume ?l
      then obtain p where "p < size_h h" "heap (swap i j h) ! p = v" by blast
      then show ?r
        using heap_swap_nth [OF len(1,2), of p] assms(2,3) by (auto split: if_splits)
    next
      assume ?r
      then obtain p where p: "p < size_h h" "heap h ! p = v" by blast
      let ?q = "if p = i then j else if p = j then i else p"
      have "?q < size_h h" "heap (swap i j h) ! ?q = v"
        using p assms(2,3) heap_swap_nth [OF len(1,2), of ?q] by auto
      then show ?l by blast
    qed
    then show "v \<in> elems (swap i j h) \<longleftrightarrow> v \<in> elems h"
      using len(3) by (simp add: elems_iff)
  qed
qed

lemma frame_swap:
  assumes "heap_wf h" "i < size_h h" "j < size_h h"
  shows "frame h (swap i j h)"
proof -
  have len: "i < length (heap h)" "j < length (heap h)" "size_h h \<le> length (heap h)"
    using heap_wfD [OF assms(1)] assms(2,3) by simp_all
  have "heap h ! i \<in> elems h" "heap h ! j \<in> elems h"
    using assms(2,3) len(3) by (auto simp: elems_iff)
  then have "\<And>w. w \<notin> elems h \<Longrightarrow> heap_pos (swap i j h) ! w = heap_pos h ! w"
    using heap_pos_swap_nth [OF assms] by auto
  moreover have "\<And>p. size_h h \<le> p \<Longrightarrow> heap (swap i j h) ! p = heap h ! p"
    using heap_swap_nth [OF len(1,2)] assms(2,3) by auto
  ultimately show ?thesis
    using elems_swap [OF assms] by (simp add: frame_def)
qed

subsection \<open>The smallest child\<close>

lemma kid_loop_spec:
  assumes "m < j" "j \<le> k" "c0 + m < size_h h"
    and "\<forall>j' < j. c0 + j' < size_h h \<longrightarrow> kp h (c0 + m) \<le> kp h (c0 + j')"
  shows "c0 \<le> kid_loop k h c0 j m \<and> kid_loop k h c0 j m < c0 + k \<and> kid_loop k h c0 j m < size_h h
     \<and> (\<forall>j' < k. c0 + j' < size_h h \<longrightarrow> kp h (kid_loop k h c0 j m) \<le> kp h (c0 + j'))"
  using assms
proof (induction k h c0 j m rule: kid_loop.induct)
  case (1 k h c0 j m)
  show ?case
  proof (cases "j < k \<and> c0 + j < size_h h")
    case True
    let ?m = "if key h ! (heap h ! (c0 + j)) < key h ! (heap h ! (c0 + m)) then j else m"
    have a: "?m < j + 1" "j + 1 \<le> k" "c0 + ?m < size_h h"
      using True "1.prems" by auto
    have b: "\<forall>j' < j + 1. c0 + j' < size_h h \<longrightarrow> kp h (c0 + ?m) \<le> kp h (c0 + j')"
    proof (intro allI impI)
      fix j' assume j': "j' < j + 1" "c0 + j' < size_h h"
      show "kp h (c0 + ?m) \<le> kp h (c0 + j')"
      proof (cases "j' = j")
        case True
        then show ?thesis by (auto simp: kp_def)
      next
        case False
        with j' have "j' < j" by simp
        with "1.prems"(4) j' have "kp h (c0 + m) \<le> kp h (c0 + j')" by blast
        then show ?thesis by (auto simp: kp_def)
      qed
    qed
    have eq: "kid_loop k h c0 j m = kid_loop k h c0 (j + 1) ?m"
      by (subst kid_loop.simps) (use True in simp)
    show ?thesis
      unfolding eq by (rule "1.IH" [OF True a b])
  next
    case False
    have eq: "kid_loop k h c0 j m = c0 + m"
      by (subst kid_loop.simps) (use False in auto)
    have "kp h (c0 + m) \<le> kp h (c0 + j')" if "j' < k" "c0 + j' < size_h h" for j'
    proof (cases "j' < j")
      case True
      with "1.prems"(4) that show ?thesis by blast
    next
      case nl: False
      with that False show ?thesis by auto
    qed
    then show ?thesis
      unfolding eq using "1.prems" by auto
  qed
qed

lemma div_eq_iff_bounds:
  fixes a k i :: nat
  assumes "1 \<le> k"
  shows "a div k = i \<longleftrightarrow> i * k \<le> a \<and> a < i * k + k"
proof
  assume "a div k = i"
  then show "i * k \<le> a \<and> a < i * k + k"
    using div_times_less_eq_dividend [of a k] dividend_less_div_times [of k a] assms
    by (simp add: add.commute)
next
  assume "i * k \<le> a \<and> a < i * k + k"
  then show "a div k = i"
    by (intro div_nat_eqI) (simp_all add: mult.commute)
qed

lemma child_iff:
  fixes i j k :: nat
  assumes "1 \<le> k" "0 < j"
  shows "(j - 1) div k = i \<longleftrightarrow> i * k + 1 \<le> j \<and> j \<le> i * k + k"
  using div_eq_iff_bounds [OF assms(1), of "j - 1" i] assms(2) by (cases j) auto

lemma parent_less:
  fixes j k :: nat
  assumes "1 \<le> k" "0 < j"
  shows "(j - 1) div k < j"
  using assms by (meson diff_less div_le_dividend le_less_trans zero_less_one)

lemma kid_spec:
  assumes "1 \<le> k" "i * k + 1 < size_h h"
  shows "0 < kid k h i" "kid k h i < size_h h" "(kid k h i - 1) div k = i"
    "\<And>j. 0 < j \<Longrightarrow> j < size_h h \<Longrightarrow> (j - 1) div k = i \<Longrightarrow> kp h (kid k h i) \<le> kp h j"
proof -
  have spec: "i * k + 1 \<le> kid k h i \<and> kid k h i < i * k + 1 + k \<and> kid k h i < size_h h
     \<and> (\<forall>j' < k. i * k + 1 + j' < size_h h \<longrightarrow> kp h (kid k h i) \<le> kp h (i * k + 1 + j'))"
    unfolding kid_def using assms by (intro kid_loop_spec) simp_all
  then show pos: "0 < kid k h i" and "kid k h i < size_h h"
    by simp_all
  show "(kid k h i - 1) div k = i"
    using child_iff [OF assms(1) pos, of i] spec by simp
  fix j assume j: "0 < j" "j < size_h h" "(j - 1) div k = i"
  have b: "i * k + 1 \<le> j" "j \<le> i * k + k"
    using child_iff [OF assms(1) j(1), of i] j(3) by blast+
  define j' where "j' = j - (i * k + 1)"
  have "j' < k" "i * k + 1 + j' = j"
    using b by (simp_all add: j'_def)
  then show "kp h (kid k h i) \<le> kp h j"
    using spec j(2) by metis
qed

subsection \<open>Moving one element down and up\<close>

text \<open>
  While \<^verbatim>\<open>heap[i]\<close> moves down, the order holds on every edge that does not touch
  position \<open>i\<close>, and the parent of \<open>i\<close> is no larger than the children of \<open>i\<close>. While it
  moves up, only the edge from \<open>i\<close> to its parent may be out of order.
\<close>

definition bridge :: "nat \<Rightarrow> ('k::linorder) KHeap \<Rightarrow> nat \<Rightarrow> bool" where
  "bridge k h i \<longleftrightarrow>
     (0 < i \<longrightarrow> (\<forall>j. 0 < j \<and> j < size_h h \<and> (j - 1) div k = i \<longrightarrow> kp h ((i - 1) div k) \<le> kp h j))"

definition down_inv :: "nat \<Rightarrow> ('k::linorder) KHeap \<Rightarrow> nat \<Rightarrow> bool" where
  "down_inv k h i \<longleftrightarrow>
     (\<forall>j. 0 < j \<and> j < size_h h \<and> j \<noteq> i \<and> (j - 1) div k \<noteq> i \<longrightarrow> kp h ((j - 1) div k) \<le> kp h j)
     \<and> bridge k h i"

definition up_inv :: "nat \<Rightarrow> ('k::linorder) KHeap \<Rightarrow> nat \<Rightarrow> bool" where
  "up_inv k h i \<longleftrightarrow>
     (\<forall>j. 0 < j \<and> j < size_h h \<and> j \<noteq> i \<longrightarrow> kp h ((j - 1) div k) \<le> kp h j)
     \<and> bridge k h i"

lemma down_step:
  assumes k: "1 \<le> k" and wf: "heap_wf h" and lt: "i * k + 1 < size_h h"
    and gt: "kp h i > kp h (kid k h i)" and inv: "down_inv k h i"
  shows "down_inv k (swap i (kid k h i) h) (kid k h i)"
proof -
  define c where "c = kid k h i"
  note ks = kid_spec [OF k lt, folded c_def]
  have ic: "i < c"
    using parent_less [OF k ks(1)] ks(3) by simp
  have len: "i < length (heap h)" "c < length (heap h)"
    using heap_wfD(3) [OF wf] ks(2) ic by simp_all
  note kps = kp_swap [OF len]
  have e1: "kp h ((j - 1) div k) \<le> kp h j"
    if "0 < j" "j < size_h h" "j \<noteq> i" "(j - 1) div k \<noteq> i" for j
    using inv that unfolding down_inv_def by blast
  have br: "kp h ((i - 1) div k) \<le> kp h j"
    if "0 < i" "0 < j" "j < size_h h" "(j - 1) div k = i" for j
    using inv that unfolding down_inv_def bridge_def by blast
  have p1: "kp (swap i c h) ((j - 1) div k) \<le> kp (swap i c h) j"
    if j: "0 < j" "j < size_h h" "j \<noteq> c" "(j - 1) div k \<noteq> c" for j
  proof (cases "j = i")
    case True
    have "(i - 1) div k < i" using parent_less [OF k] j(1) True by simp
    then have "kp (swap i c h) ((j - 1) div k) = kp h ((i - 1) div k)"
      using True ic by (simp add: kps)
    moreover have "kp (swap i c h) j = kp h c"
      using True ic by (simp add: kps)
    moreover have "kp h ((i - 1) div k) \<le> kp h c"
      using br [of c] j(1) True ks by simp
    ultimately show ?thesis by simp
  next
    case ne: False
    then have kj: "kp (swap i c h) j = kp h j"
      using j(3) by (simp add: kps)
    show ?thesis
    proof (cases "(j - 1) div k = i")
      case True
      then have "kp (swap i c h) ((j - 1) div k) = kp h c"
        using ic by (simp add: kps)
      moreover have "kp h c \<le> kp h j"
        using ks(4) [OF j(1,2) True] .
      ultimately show ?thesis using kj by simp
    next
      case False
      then have "kp (swap i c h) ((j - 1) div k) = kp h ((j - 1) div k)"
        using j(4) by (simp add: kps)
      then show ?thesis
        using kj e1 [OF j(1,2) ne False] by simp
    qed
  qed
  have p2: "kp (swap i c h) ((c - 1) div k) \<le> kp (swap i c h) j"
    if j: "0 < j" "j < size_h h" "(j - 1) div k = c" for j
  proof -
    have cj: "c < j" using parent_less [OF k j(1)] j(3) by simp
    then have "kp (swap i c h) j = kp h j"
      using ic by (simp add: kps)
    moreover have "kp (swap i c h) ((c - 1) div k) = kp h c"
      using ks(3) ic by (simp add: kps)
    moreover have "kp h c \<le> kp h j"
      using e1 [OF j(1,2)] cj ic j(3) by simp
    ultimately show ?thesis by simp
  qed
  show ?thesis
    unfolding c_def [symmetric] down_inv_def bridge_def
    using p1 p2 by simp
qed

lemma down_exit:
  assumes k: "1 \<le> k" and inv: "down_inv k h i"
    and ex: "\<not> (i * k + 1 < size_h h \<and> kp h i > kp h (kid k h i))"
  shows "up_inv k h i"
proof -
  have "kp h ((j - 1) div k) \<le> kp h j" if j: "0 < j" "j < size_h h" "j \<noteq> i" for j
  proof (cases "(j - 1) div k = i")
    case True
    then have "i * k + 1 \<le> j"
      using child_iff [OF k j(1), of i] by simp
    with j(2) have lt: "i * k + 1 < size_h h" by simp
    with ex have "kp h i \<le> kp h (kid k h i)" by simp
    also have "\<dots> \<le> kp h j"
      using kid_spec(4) [OF k lt j(1,2) True] .
    finally show ?thesis using True by simp
  next
    case False
    with inv j show ?thesis unfolding down_inv_def by blast
  qed
  then show ?thesis
    using inv unfolding up_inv_def down_inv_def by blast
qed

lemma up_step:
  assumes k: "1 \<le> k" and wf: "heap_wf h" and i: "i < size_h h" "0 < i"
    and lt: "kp h i < kp h ((i - 1) div k)" and inv: "up_inv k h i"
  shows "up_inv k (swap i ((i - 1) div k) h) ((i - 1) div k)"
proof -
  define p where "p = (i - 1) div k"
  have pi: "p < i"
    unfolding p_def by (rule parent_less [OF k i(2)])
  have len: "i < length (heap h)" "p < length (heap h)"
    using heap_wfD(3) [OF wf] i(1) pi by simp_all
  note kps = kp_swap [OF len]
  have e1: "kp h ((j - 1) div k) \<le> kp h j" if "0 < j" "j < size_h h" "j \<noteq> i" for j
    using inv that unfolding up_inv_def by blast
  have br: "kp h p \<le> kp h j" if "0 < j" "j < size_h h" "(j - 1) div k = i" for j
    using inv that i(2) unfolding up_inv_def bridge_def p_def by blast
  have p1: "kp (swap i p h) ((j - 1) div k) \<le> kp (swap i p h) j"
    if j: "0 < j" "j < size_h h" "j \<noteq> p" for j
  proof (cases "j = i")
    case True
    have "(j - 1) div k = p"
      unfolding p_def True ..
    then have "kp (swap i p h) ((j - 1) div k) = kp h i"
      by (simp add: kps)
    moreover have "kp (swap i p h) j = kp h p"
      using True pi by (simp add: kps)
    moreover have "kp h i < kp h p"
      using lt unfolding p_def .
    ultimately show ?thesis by simp
  next
    case ne: False
    then have kj: "kp (swap i p h) j = kp h j"
      using j(3) by (simp add: kps)
    consider "(j - 1) div k = p" | "(j - 1) div k = i" | "(j - 1) div k \<noteq> p" "(j - 1) div k \<noteq> i"
      by blast
    then show ?thesis
    proof cases
      case 1
      then have "kp (swap i p h) ((j - 1) div k) = kp h i"
        by (simp add: kps)
      moreover have "kp h i < kp h p" using lt by (simp add: p_def)
      moreover have "kp h p \<le> kp h j" using e1 [OF j(1,2) ne] 1 by simp
      ultimately show ?thesis using kj by simp
    next
      case 2
      then have "kp (swap i p h) ((j - 1) div k) = kp h p"
        using pi by (simp add: kps)
      then show ?thesis using kj br [OF j(1,2) 2] by simp
    next
      case 3
      then have "kp (swap i p h) ((j - 1) div k) = kp h ((j - 1) div k)"
        by (simp add: kps)
      then show ?thesis using kj e1 [OF j(1,2) ne] by simp
    qed
  qed
  have p2: "kp (swap i p h) ((p - 1) div k) \<le> kp (swap i p h) j"
    if j: "0 < p" "0 < j" "j < size_h h" "(j - 1) div k = p" for j
  proof -
    have pp: "(p - 1) div k < p"
      by (rule parent_less [OF k j(1)])
    then have a: "kp (swap i p h) ((p - 1) div k) = kp h ((p - 1) div k)"
      using pi by (simp add: kps)
    have b: "kp h ((p - 1) div k) \<le> kp h p"
      using e1 [of p] j(1) pi i(1) by simp
    have pj: "p < j" using parent_less [OF k j(2)] j(4) by simp
    show ?thesis
    proof (cases "j = i")
      case True
      then show ?thesis using a b pi by (simp add: kps)
    next
      case False
      then have "kp (swap i p h) j = kp h j"
        using pj by (simp add: kps)
      moreover have "kp h p \<le> kp h j"
        using e1 [OF j(2,3) False] j(4) by simp
      ultimately show ?thesis using a b by simp
    qed
  qed
  show ?thesis
    unfolding p_def [symmetric] up_inv_def bridge_def
    using p1 p2 by simp
qed

lemma up_exit:
  assumes "up_inv k h i" "\<not> (0 < i \<and> kp h i < kp h ((i - 1) div k))"
  shows "heap_ord k h"
proof -
  have "kp h ((j - 1) div k) \<le> kp h j" if "0 < j" "j < size_h h" for j
  proof (cases "j = i")
    case True
    with assms(2) that show ?thesis by auto
  next
    case False
    with assms(1) that show ?thesis unfolding up_inv_def by blast
  qed
  then show ?thesis by (simp add: heap_ord_def)
qed

lemma fixup_down_spec:
  assumes "1 \<le> k" "heap_wf h" "down_inv k h i" "i < size_h h"
  shows "heap_wf (fst (fixup_down k h i)) \<and> frame h (fst (fixup_down k h i))
     \<and> up_inv k (fst (fixup_down k h i)) (snd (fixup_down k h i))
     \<and> snd (fixup_down k h i) < size_h h"
  using assms
proof (induction k h i rule: fixup_down.induct)
  case (1 k h i)
  show ?case
  proof (cases "i * k + 1 < size_h h \<and> key h ! (heap h ! i) > key h ! (heap h ! kid k h i)")
    case True
    then have lt: "i * k + 1 < size_h h" and gt: "kp h i > kp h (kid k h i)"
      by (simp_all add: kp_def)
    note ks = kid_spec [OF "1.prems"(1) lt]
    have eq: "fixup_down k h i = fixup_down k (swap i (kid k h i) h) (kid k h i)"
      by (subst fixup_down.simps) (use True in simp)
    have wf': "heap_wf (swap i (kid k h i) h)"
      using heap_wf_swap [OF "1.prems"(2,4) ks(2)] .
    have fr: "frame h (swap i (kid k h i) h)"
      using frame_swap [OF "1.prems"(2,4) ks(2)] .
    have di: "down_inv k (swap i (kid k h i) h) (kid k h i)"
      using down_step [OF "1.prems"(1,2) lt gt "1.prems"(3)] .
    have IH: "heap_wf (fst (fixup_down k (swap i (kid k h i) h) (kid k h i)))
       \<and> frame (swap i (kid k h i) h) (fst (fixup_down k (swap i (kid k h i) h) (kid k h i)))
       \<and> up_inv k (fst (fixup_down k (swap i (kid k h i) h) (kid k h i)))
            (snd (fixup_down k (swap i (kid k h i) h) (kid k h i)))
       \<and> snd (fixup_down k (swap i (kid k h i) h) (kid k h i)) < size_h (swap i (kid k h i) h)"
      using "1.IH" [OF True "1.prems"(1) wf' di] ks(2) by simp
    show ?thesis
      unfolding eq using IH frame_trans [OF fr] by simp
  next
    case False
    have eq: "fixup_down k h i = (h, i)"
      by (subst fixup_down.simps) (use False in auto)
    have "up_inv k h i"
      using down_exit [OF "1.prems"(1,3)] False by (simp add: kp_def)
    then show ?thesis
      unfolding eq using "1.prems" frame_refl by simp
  qed
qed

lemma fixup_up_spec:
  assumes "1 \<le> k" "heap_wf h" "up_inv k h i" "i < size_h h"
  shows "heap_wf (fixup_up k h i) \<and> frame h (fixup_up k h i) \<and> heap_ord k (fixup_up k h i)"
  using assms
proof (induction k h i rule: fixup_up.induct)
  case (1 k h i)
  show ?case
  proof (cases "i > 0 \<and> key h ! (heap h ! i) < key h ! (heap h ! ((i - 1) div k))")
    case True
    then have pos: "0 < i" and lt: "kp h i < kp h ((i - 1) div k)"
      by (simp_all add: kp_def)
    have p: "(i - 1) div k < size_h h"
      using parent_less [OF "1.prems"(1) pos] "1.prems"(4) by simp
    have eq: "fixup_up k h i = fixup_up k (swap i ((i - 1) div k) h) ((i - 1) div k)"
      by (subst fixup_up.simps) (use True in simp)
    have wf': "heap_wf (swap i ((i - 1) div k) h)"
      using heap_wf_swap [OF "1.prems"(2,4) p] .
    have fr: "frame h (swap i ((i - 1) div k) h)"
      using frame_swap [OF "1.prems"(2,4) p] .
    have ui: "up_inv k (swap i ((i - 1) div k) h) ((i - 1) div k)"
      using up_step [OF "1.prems"(1,2,4) pos lt "1.prems"(3)] .
    show ?thesis
      unfolding eq using "1.IH" [OF True "1.prems"(1) wf' ui] p frame_trans [OF fr] by simp
  next
    case False
    have eq: "fixup_up k h i = h"
      by (subst fixup_up.simps) (use False in auto)
    have "heap_ord k h"
      using up_exit [OF "1.prems"(3)] False by (simp add: kp_def)
    then show ?thesis
      unfolding eq using "1.prems" frame_refl by simp
  qed
qed

lemma fixup_spec:
  assumes "1 \<le> k" "heap_wf h" "down_inv k h i" "i < size_h h"
  shows "heap_wf (fixup k h i)" "frame h (fixup k h i)" "heap_ord k (fixup k h i)"
proof -
  obtain h' i' where d: "fixup_down k h i = (h', i')"
    by (cases "fixup_down k h i")
  have s: "heap_wf h'" "frame h h'" "up_inv k h' i'" "i' < size_h h"
    using fixup_down_spec [OF assms] d by simp_all
  then have sz: "i' < size_h h'"
    by (simp add: frame_def)
  have u: "heap_wf (fixup_up k h' i') \<and> frame h' (fixup_up k h' i') \<and> heap_ord k (fixup_up k h' i')"
    using fixup_up_spec [OF assms(1) s(1,3) sz] .
  have f: "fixup k h i = fixup_up k h' i'"
    by (simp add: fixup_def d)
  show "heap_wf (fixup k h i)" "frame h (fixup k h i)" "heap_ord k (fixup k h i)"
    unfolding f using u frame_trans [OF s(2)] by simp_all
qed

subsection \<open>The operations keep the invariant\<close>

text \<open>The contents of the heap: the present elements with their keys.\<close>

definition alpha :: "'k KHeap \<Rightarrow> Vertex \<rightharpoonup> 'k" where
  "alpha h = (\<lambda>v. if present h v then Some (key h ! v) else None)"

lemma pos_okD: "pos_ok h \<Longrightarrow> v < length (heap h) \<Longrightarrow> heap_pos h ! v \<noteq> None \<Longrightarrow> v \<in> elems h"
  unfolding pos_ok_def elems_def by blast

lemma pos_okI: "(\<And>v. v < length (heap h) \<Longrightarrow> heap_pos h ! v \<noteq> None \<Longrightarrow> v \<in> elems h) \<Longrightarrow> pos_ok h"
  unfolding pos_ok_def elems_def by blast

lemma elems_less:
  assumes "heap_wf h" "v \<in> elems h"
  shows "v < length (heap h)" "heap_pos h ! v \<noteq> None"
proof -
  obtain i where i: "i < size_h h" "heap h ! i = v"
    using assms(2) elems_iff [OF heap_wfD(3) [OF assms(1)]] by blast
  show "v < length (heap h)"
    using heap_wfD(4) [OF assms(1) i(1)] i(2) by simp
  show "heap_pos h ! v \<noteq> None"
    using heap_wfD(5) [OF assms(1) i(1)] i(2) by simp
qed

lemma present_iff_elems:
  assumes "heap_wf h" "pos_ok h"
  shows "present h v \<longleftrightarrow> v \<in> elems h"
  using pos_okD [OF assms(2)] elems_less [OF assms(1)] unfolding present_def by blast

lemma pos_ok_frame:
  assumes "pos_ok h" "frame h h'"
  shows "pos_ok h'"
proof (rule pos_okI)
  fix v assume v: "v < length (heap h')" "heap_pos h' ! v \<noteq> None"
  have f: "elems h' = elems h" "length (heap h') = length (heap h)"
    "v \<notin> elems h \<Longrightarrow> heap_pos h' ! v = heap_pos h ! v"
    using assms(2) unfolding frame_def by simp_all
  show "v \<in> elems h'"
  proof (rule ccontr)
    assume "v \<notin> elems h'"
    then have n: "v \<notin> elems h" using f(1) by simp
    then have "heap_pos h ! v \<noteq> None" using f(3) v(2) by simp
    then have "v \<in> elems h" using pos_okD [OF assms(1)] v(1) f(2) by simp
    with n show False by simp
  qed
qed

lemma distinct_take_heap:
  assumes "heap_wf h"
  shows "distinct (take (size_h h) (heap h))"
proof -
  have "i = j" if "i < size_h h" "j < size_h h" "heap h ! i = heap h ! j" for i j
    using heap_wf_inj [OF assms that] .
  then show ?thesis
    using heap_wfD(3) [OF assms] by (auto simp: distinct_conv_nth)
qed

lemma card_elems:
  assumes "heap_wf h"
  shows "card (elems h) = size_h h"
  unfolding elems_def using distinct_card [OF distinct_take_heap [OF assms]] heap_wfD(3) [OF assms]
  by simp

lemma size_less_absent:
  assumes "heap_wf h" "v < length (heap h)" "v \<notin> elems h"
  shows "size_h h < length (heap h)"
proof -
  have "elems h \<subseteq> {..<length (heap h)} - {v}"
    using elems_less(1) [OF assms(1)] assms(3) by auto
  then have "card (elems h) \<le> card ({..<length (heap h)} - {v})"
    by (intro card_mono) simp_all
  also have "\<dots> < length (heap h)"
    using assms(2) by (simp add: card_Diff_singleton_if)
  finally show ?thesis
    using card_elems [OF assms(1)] by simp
qed

lemma top_min:
  assumes "1 \<le> k" "heap_ord k h" "i < size_h h"
  shows "kp h 0 \<le> kp h i"
  using assms(3)
proof (induction i rule: less_induct)
  case (less i)
  show ?case
  proof (cases "i = 0")
    case True
    then show ?thesis by simp
  next
    case False
    then have pos: "0 < i" by simp
    have p: "(i - 1) div k < i"
      by (rule parent_less [OF assms(1) pos])
    have "kp h 0 \<le> kp h ((i - 1) div k)"
      using less.IH [OF p] p less.prems by simp
    also have "\<dots> \<le> kp h i"
      using assms(2) pos less.prems unfolding heap_ord_def by blast
    finally show ?thesis .
  qed
qed

lemma heap_invD:
  assumes "heap_inv k h"
  shows "heap_wf h" "pos_ok h" "heap_ord k h"
  using assms by (simp_all add: heap_inv_def)

lemma heap_ordD: "heap_ord k h \<Longrightarrow> 0 < i \<Longrightarrow> i < size_h h \<Longrightarrow> kp h ((i - 1) div k) \<le> kp h i"
  unfolding heap_ord_def by blast

lemma alpha_eq:
  assumes "heap_wf h" "pos_ok h"
  shows "alpha h = (\<lambda>v. if v \<in> elems h then Some (key h ! v) else None)"
  unfolding alpha_def using present_iff_elems [OF assms] by auto

lemma update_absent:
  fixes h :: "('k::linorder) KHeap"
  assumes k: "1 \<le> k" and inv: "heap_inv k h" and v: "v < length (heap h)"
    and ab: "heap_pos h ! v = None"
  shows "heap_inv k (update k v kk h)" "alpha (update k v kk h) = (alpha h)(v \<mapsto> kk)"
    "length (heap (update k v kk h)) = length (heap h)"
proof -
  note wf = heap_invD(1) [OF inv] and po = heap_invD(2) [OF inv] and ho = heap_invD(3) [OF inv]
  note len = heap_wfD(1-3) [OF wf]
  define s where "s = size_h h"
  define h2 where "h2 = h\<lparr> heap_pos := (heap_pos h)[v := Some s], heap := (heap h)[s := v],
                         size_h := s + 1, key := (key h)[v := kk] \<rparr>"
  have vn: "v \<notin> elems h"
    using elems_less(2) [OF wf] ab by blast
  have sn: "s < length (heap h)"
    unfolding s_def by (rule size_less_absent [OF wf v vn])
  have ne: "heap h ! i \<noteq> v" if "i < s" for i
    using vn that elems_iff [OF len(3)] unfolding s_def by blast
  have up: "update k v kk h = fixup k h2 s"
    using ab v len by (simp add: update_def h2_def s_def Let_def)
  have h2s: "size_h h2 = s + 1" "length (heap h2) = length (heap h)"
    "length (heap_pos h2) = length (heap h)" "length (key h2) = length (heap h)"
    "key h2 = (key h)[v := kk]"
    using len by (simp_all add: h2_def)
  have heap2: "heap h2 ! i = (if i = s then v else heap h ! i)" if "i < s + 1" for i
    using that sn by (simp add: h2_def nth_list_update)
  have pos2: "heap_pos h2 ! w = (if w = v then Some s else heap_pos h ! w)" if "w < length (heap h)" for w
    using that len v by (simp add: h2_def nth_list_update)
  have kp2: "kp h2 i = kp h i" if "i < s" for i
  proof -
    have "heap h ! i < length (heap h)"
      using heap_wfD(4) [OF wf] that by (simp add: s_def)
    then show ?thesis
      using heap2 [of i] that ne [OF that] len by (simp add: kp_def h2s)
  qed
  have wf2: "heap_wf h2"
  proof -
    have "heap h2 ! i < length (heap h2) \<and> heap_pos h2 ! (heap h2 ! i) = Some i" if "i < size_h h2" for i
    proof (cases "i = s")
      case True
      then show ?thesis using heap2 [of i] pos2 [of v] v h2s by simp
    next
      case False
      with that have i: "i < s" by (simp add: h2s)
      then have "heap h ! i < length (heap h)" "heap_pos h ! (heap h ! i) = Some i"
        using heap_wfD(4,5) [OF wf] by (simp_all add: s_def)
      then show ?thesis
        using heap2 [of i] pos2 [of "heap h ! i"] ne [OF i] i h2s by simp
    qed
    then show ?thesis
      unfolding heap_wf_def using h2s sn by simp
  qed
  have el2: "elems h2 = insert v (elems h)"
  proof (rule set_eqI)
    fix w
    have "w \<in> elems h2 \<longleftrightarrow> (\<exists>i < s + 1. heap h2 ! i = w)"
      using elems_iff [of h2 w] h2s sn by simp
    also have "\<dots> \<longleftrightarrow> w = v \<or> (\<exists>i < s. heap h ! i = w)"
      using heap2 by (auto simp: less_Suc_eq)
    also have "\<dots> \<longleftrightarrow> w \<in> insert v (elems h)"
      using elems_iff [OF len(3), of w] by (simp add: s_def)
    finally show "w \<in> elems h2 \<longleftrightarrow> w \<in> insert v (elems h)" .
  qed
  have po2: "pos_ok h2"
  proof (rule pos_okI)
    fix w assume "w < length (heap h2)" "heap_pos h2 ! w \<noteq> None"
    then show "w \<in> elems h2"
      using pos2 [of w] pos_okD [OF po, of w] h2s el2 by (cases "w = v") simp_all
  qed
  have di: "down_inv k h2 s"
  proof -
    have "kp h2 ((j - 1) div k) \<le> kp h2 j" if "0 < j" "j < size_h h2" "j \<noteq> s" for j
    proof -
      have j: "j < s" using that by (simp add: h2s)
      have "(j - 1) div k < s"
        using parent_less [OF k that(1)] j by simp
      then show ?thesis
        using kp2 j heap_ordD [OF ho that(1)] by (simp add: s_def)
    qed
    moreover have False if "0 < j" "j < size_h h2" "(j - 1) div k = s" for j
      using parent_less [OF k that(1)] that by (simp add: h2s)
    ultimately show ?thesis
      unfolding down_inv_def bridge_def by blast
  qed
  have ss: "s < size_h h2" by (simp add: h2s)
  note fx = fixup_spec [OF k wf2 di ss]
  have fr: "elems (fixup k h2 s) = elems h2" "key (fixup k h2 s) = key h2"
    "length (heap (fixup k h2 s)) = length (heap h2)"
    using fx(2) by (simp_all add: frame_def)
  have po3: "pos_ok (fixup k h2 s)"
    by (rule pos_ok_frame [OF po2 fx(2)])
  show "heap_inv k (update k v kk h)"
    unfolding up heap_inv_def using fx po3 by simp
  show "length (heap (update k v kk h)) = length (heap h)"
    unfolding up using fr h2s by simp
  have "key h2 ! w = key h ! w" if "w \<noteq> v" for w
    using that by (simp add: h2s)
  moreover have "key h2 ! v = kk"
    using v len by (simp add: h2s)
  ultimately show "alpha (update k v kk h) = (alpha h)(v \<mapsto> kk)"
    unfolding up alpha_eq [OF fx(1) po3] alpha_eq [OF wf po] fr el2
    by (auto simp: fun_eq_iff)
qed

lemma update_present:
  fixes h :: "('k::linorder) KHeap"
  assumes k: "1 \<le> k" and inv: "heap_inv k h" and v: "v < length (heap h)"
    and pr: "heap_pos h ! v = Some p"
  shows "heap_inv k (update k v kk h)" "alpha (update k v kk h) = (alpha h)(v \<mapsto> kk)"
    "length (heap (update k v kk h)) = length (heap h)"
proof -
  note wf = heap_invD(1) [OF inv] and po = heap_invD(2) [OF inv] and ho = heap_invD(3) [OF inv]
  note len = heap_wfD(1-3) [OF wf]
  define h2 where "h2 = h\<lparr> key := (key h)[v := kk] \<rparr>"
  have up: "update k v kk h = fixup k h2 p"
    using pr by (simp add: update_def h2_def Let_def)
  have ve: "v \<in> elems h"
    using pos_okD [OF po v] pr by simp
  then obtain i where i: "i < size_h h" "heap h ! i = v"
    using elems_iff [OF len(3)] by blast
  have "heap_pos h ! v = Some i"
    using heap_wfD(5) [OF wf i(1)] i(2) by simp
  with pr have ip: "i = p" by simp
  have p: "p < size_h h" "heap h ! p = v"
    using i ip by simp_all
  have h2s: "size_h h2 = size_h h" "heap h2 = heap h" "heap_pos h2 = heap_pos h"
    "key h2 = (key h)[v := kk]"
    by (simp_all add: h2_def)
  have wf2: "heap_wf h2"
    using wf unfolding heap_wf_def h2s by simp
  have po2: "pos_ok h2"
    using po unfolding pos_ok_def h2s by simp
  have el2: "elems h2 = elems h"
    by (simp add: elems_def h2s)
  have kp2: "kp h2 j = kp h j" if "j < size_h h" "j \<noteq> p" for j
  proof -
    have "heap h ! j \<noteq> v"
      using heap_wf_inj [OF wf that(1) p(1)] that(2) p(2) by metis
    then show ?thesis
      by (simp add: kp_def h2s)
  qed
  have di: "down_inv k h2 p"
  proof -
    have "kp h2 ((j - 1) div k) \<le> kp h2 j"
      if "0 < j" "j < size_h h2" "j \<noteq> p" "(j - 1) div k \<noteq> p" for j
    proof -
      have "(j - 1) div k < size_h h"
        using parent_less [OF k that(1)] that(2) by (simp add: h2s)
      then show ?thesis
        using kp2 that heap_ordD [OF ho that(1)] by (simp add: h2s)
    qed
    moreover have "kp h2 ((p - 1) div k) \<le> kp h2 j"
      if "0 < p" "0 < j" "j < size_h h2" "(j - 1) div k = p" for j
    proof -
      have pp: "(p - 1) div k < p" "p < j"
        using parent_less [OF k that(1)] parent_less [OF k that(2)] that(4) by simp_all
      have "kp h ((p - 1) div k) \<le> kp h p"
        using heap_ordD [OF ho that(1) p(1)] .
      also have "\<dots> \<le> kp h j"
        using heap_ordD [OF ho that(2)] that(3,4) by (simp add: h2s)
      finally show ?thesis
        using kp2 [of j] kp2 [of "(p - 1) div k"] pp that(3) p(1) by (simp add: h2s)
    qed
    ultimately show ?thesis
      unfolding down_inv_def bridge_def by blast
  qed
  have ps: "p < size_h h2" using p by (simp add: h2s)
  note fx = fixup_spec [OF k wf2 di ps]
  have fr: "elems (fixup k h2 p) = elems h2" "key (fixup k h2 p) = key h2"
    "length (heap (fixup k h2 p)) = length (heap h2)"
    using fx(2) by (simp_all add: frame_def)
  have po3: "pos_ok (fixup k h2 p)"
    by (rule pos_ok_frame [OF po2 fx(2)])
  show "heap_inv k (update k v kk h)"
    unfolding up heap_inv_def using fx po3 by simp
  show "length (heap (update k v kk h)) = length (heap h)"
    unfolding up using fr h2s by simp
  have "key h2 ! w = key h ! w" if "w \<noteq> v" for w
    using that by (simp add: h2s)
  moreover have "key h2 ! v = kk"
    using v len by (simp add: h2s)
  ultimately show "alpha (update k v kk h) = (alpha h)(v \<mapsto> kk)"
    unfolding up alpha_eq [OF fx(1) po3] alpha_eq [OF wf po] fr el2
    using ve by (auto simp: fun_eq_iff)
qed

lemma update_spec:
  fixes h :: "('k::linorder) KHeap"
  assumes "1 \<le> k" "heap_inv k h" "v < length (heap h)"
  shows "heap_inv k (update k v kk h)" "alpha (update k v kk h) = (alpha h)(v \<mapsto> kk)"
    "length (heap (update k v kk h)) = length (heap h)"
  using update_absent [OF assms] update_present [OF assms]
  by (cases "heap_pos h ! v"; simp)+

lemma shrink_last:
  assumes wf: "heap_wf g" and po: "pos_ok g" and sz: "size_h g = Suc l"
  shows "heap_wf (g\<lparr>size_h := l\<rparr>)" "elems (g\<lparr>size_h := l\<rparr>) = elems g - {heap g ! l}"
    "\<And>w. w < length (heap g) \<Longrightarrow> w \<noteq> heap g ! l \<Longrightarrow> heap_pos g ! w \<noteq> None \<Longrightarrow> w \<in> elems (g\<lparr>size_h := l\<rparr>)"
proof -
  note len = heap_wfD(1-3) [OF wf]
  show "heap_wf (g\<lparr>size_h := l\<rparr>)"
    using wf sz unfolding heap_wf_def by simp
  have ll: "l < length (heap g)"
    using len(3) sz by simp
  have "take (Suc l) (heap g) = take l (heap g) @ [heap g ! l]"
    by (rule take_Suc_conv_app_nth [OF ll])
  moreover have "distinct (take (Suc l) (heap g))"
    using distinct_take_heap [OF wf] sz by simp
  ultimately have "heap g ! l \<notin> set (take l (heap g))"
    "set (take (Suc l) (heap g)) = insert (heap g ! l) (set (take l (heap g)))"
    by simp_all
  then show el: "elems (g\<lparr>size_h := l\<rparr>) = elems g - {heap g ! l}"
    by (simp add: elems_def sz)
  fix w assume "w < length (heap g)" "w \<noteq> heap g ! l" "heap_pos g ! w \<noteq> None"
  then show "w \<in> elems (g\<lparr>size_h := l\<rparr>)"
    using pos_okD [OF po, of w] el by simp
qed

lemma unmark:
  assumes wf: "heap_wf h3" and v: "v \<notin> elems h3"
    and po: "\<And>w. w < length (heap h3) \<Longrightarrow> w \<noteq> v \<Longrightarrow> heap_pos h3 ! w \<noteq> None \<Longrightarrow> w \<in> elems h3"
  shows "heap_wf (h3\<lparr>heap_pos := (heap_pos h3)[v := None]\<rparr>)"
    "pos_ok (h3\<lparr>heap_pos := (heap_pos h3)[v := None]\<rparr>)"
    "elems (h3\<lparr>heap_pos := (heap_pos h3)[v := None]\<rparr>) = elems h3"
proof -
  let ?hf = "h3\<lparr>heap_pos := (heap_pos h3)[v := None]\<rparr>"
  note len = heap_wfD(1-3) [OF wf]
  show el: "elems ?hf = elems h3"
    by (simp add: elems_def)
  have "heap ?hf ! i < length (heap ?hf) \<and> heap_pos ?hf ! (heap ?hf ! i) = Some i" if "i < size_h ?hf" for i
  proof -
    have i: "i < size_h h3" using that by simp
    then have "heap h3 ! i \<in> elems h3"
      using elems_iff [OF len(3)] by blast
    with v have "heap h3 ! i \<noteq> v" by metis
    then show ?thesis
      using heap_wfD(4,5) [OF wf i] by simp
  qed
  then show "heap_wf ?hf"
    unfolding heap_wf_def using len by simp
  show "pos_ok ?hf"
  proof (rule pos_okI)
    fix w assume w: "w < length (heap ?hf)" "heap_pos ?hf ! w \<noteq> None"
    then have "w \<noteq> v"
      using len by (cases "w = v") simp_all
    then show "w \<in> elems ?hf"
      using po [of w] w el by simp
  qed
qed

lemma heap_ord_unmark:
  "heap_ord k (h\<lparr>heap_pos := hp\<rparr>) = heap_ord k h"
  by (simp add: heap_ord_def kp_def)

lemma extract_present:
  fixes h :: "('k::linorder) KHeap"
  assumes k: "1 \<le> k" and inv: "heap_inv k h" and v: "v < length (heap h)"
    and pr: "heap_pos h ! v = Some pos"
  shows "heap_inv k (extract_heap k v h)" "alpha (extract_heap k v h) = (alpha h)(v := None)"
    "length (heap (extract_heap k v h)) = length (heap h)"
    "size_h (extract_heap k v h) = size_h h - 1" "0 < size_h h"
proof -
  note wf = heap_invD(1) [OF inv] and po = heap_invD(2) [OF inv] and ho = heap_invD(3) [OF inv]
  note len = heap_wfD(1-3) [OF wf]
  have ve: "v \<in> elems h"
    using pos_okD [OF po v] pr by simp
  then obtain i where i: "i < size_h h" "heap h ! i = v"
    using elems_iff [OF len(3)] by blast
  have "heap_pos h ! v = Some i"
    using heap_wfD(5) [OF wf i(1)] i(2) by simp
  with pr have ip: "i = pos" by simp
  have p: "pos < size_h h" "heap h ! pos = v"
    using i ip by simp_all
  define l where "l = size_h h - 1"
  have sz: "size_h h = Suc l" using p(1) by (simp add: l_def)
  show "0 < size_h h" using sz by simp
  define hs where "hs = (if pos < l then swap pos l (h\<lparr>size_h := l\<rparr>) else h\<lparr>size_h := l\<rparr>)"
  define h3 where "h3 = (if pos < l then fixup k hs pos else hs)"
  have ex: "extract_heap k v h = h3\<lparr>heap_pos := (heap_pos h3)[v := None]\<rparr>"
    using pr by (simp add: extract_heap_def Let_def h3_def hs_def l_def)
  have hs: "heap_wf hs \<and> elems hs = elems h - {v} \<and> key hs = key h \<and> size_h hs = l
      \<and> length (heap hs) = length (heap h)
      \<and> (\<forall>w. w < length (heap h) \<longrightarrow> w \<noteq> v \<longrightarrow> heap_pos hs ! w \<noteq> None \<longrightarrow> w \<in> elems hs)
      \<and> (if pos < l then down_inv k hs pos else heap_ord k hs)"
  proof (cases "pos < l")
    case True
    define g where "g = swap pos l h"
    have ll: "l < size_h h" using sz by simp
    have eq: "hs = g\<lparr>size_h := l\<rparr>"
      using True by (simp add: hs_def g_def swap_def)
    have wfg: "heap_wf g" unfolding g_def by (rule heap_wf_swap [OF wf p(1) ll])
    have frg: "frame h g" unfolding g_def by (rule frame_swap [OF wf p(1) ll])
    have pog: "pos_ok g" by (rule pos_ok_frame [OF po frg])
    have lens: "pos < length (heap h)" "l < length (heap h)"
      using len(3) p(1) ll by simp_all
    have gl: "heap g ! l = v"
      unfolding g_def using heap_swap_nth [OF lens, of l] p(2) by simp
    have szg: "size_h g = Suc l" by (simp add: g_def sz)
    note sh = shrink_last [OF wfg pog szg, unfolded gl, folded eq]
    have fg: "elems g = elems h" "length (heap g) = length (heap h)" "key g = key h"
      using frg by (simp_all add: frame_def)
    have kps: "kp hs j = kp h j" if "j < l" "j \<noteq> pos" for j
    proof -
      have "kp hs j = kp g j" by (simp add: eq kp_def)
      then show ?thesis
        unfolding g_def using kp_swap [OF lens, of j] that by simp
    qed
    have di: "down_inv k hs pos"
    proof -
      have "kp hs ((j - 1) div k) \<le> kp hs j"
        if "0 < j" "j < size_h hs" "j \<noteq> pos" "(j - 1) div k \<noteq> pos" for j
      proof -
        have j: "j < l" using that(2) by (simp add: eq)
        have "(j - 1) div k < l"
          using parent_less [OF k that(1)] j by simp
        then show ?thesis
          using kps j that heap_ordD [OF ho that(1)] ll by simp
      qed
      moreover have "kp hs ((pos - 1) div k) \<le> kp hs j"
        if "0 < pos" "0 < j" "j < size_h hs" "(j - 1) div k = pos" for j
      proof -
        have j: "j < l" using that(3) by (simp add: eq)
        have pp: "(pos - 1) div k < pos" "pos < j"
          using parent_less [OF k that(1)] parent_less [OF k that(2)] that(4) by simp_all
        have "kp h ((pos - 1) div k) \<le> kp h pos"
          using heap_ordD [OF ho that(1) p(1)] .
        also have "\<dots> \<le> kp h j"
          using heap_ordD [OF ho that(2)] that(4) j ll by simp
        finally show ?thesis
          using kps [of j] kps [of "(pos - 1) div k"] pp j by simp
      qed
      ultimately show ?thesis
        unfolding down_inv_def bridge_def by blast
    qed
    show ?thesis
      using sh fg di True by (simp add: eq)
  next
    case False
    then have pl: "pos = l" using p(1) sz by simp
    have eq: "hs = h\<lparr>size_h := l\<rparr>"
      using False by (simp add: hs_def)
    have hl: "heap h ! l = v" using p(2) pl by simp
    note sh = shrink_last [OF wf po sz, unfolded hl, folded eq]
    have "heap_ord k hs"
      using ho unfolding heap_ord_def eq by (simp add: sz kp_def)
    then show ?thesis
      using sh False by (simp add: eq)
  qed
  have h3: "heap_wf h3 \<and> elems h3 = elems h - {v} \<and> key h3 = key h \<and> size_h h3 = l
      \<and> length (heap h3) = length (heap h) \<and> heap_ord k h3
      \<and> (\<forall>w. w < length (heap h) \<longrightarrow> w \<noteq> v \<longrightarrow> heap_pos h3 ! w \<noteq> None \<longrightarrow> w \<in> elems h3)"
  proof (cases "pos < l")
    case True
    then have di: "down_inv k hs pos" and ps: "pos < size_h hs"
      using hs by simp_all
    have wfs: "heap_wf hs" using hs by simp
    note fx = fixup_spec [OF k wfs di ps]
    have eq: "h3 = fixup k hs pos" using True by (simp add: h3_def)
    have fr: "elems h3 = elems hs" "key h3 = key hs" "size_h h3 = size_h hs"
      "length (heap h3) = length (heap hs)"
      "\<And>w. w \<notin> elems hs \<Longrightarrow> heap_pos h3 ! w = heap_pos hs ! w"
      using fx(2) unfolding eq frame_def by simp_all
    have "w \<in> elems h3" if "w < length (heap h)" "w \<noteq> v" "heap_pos h3 ! w \<noteq> None" for w
    proof (rule ccontr)
      assume n: "w \<notin> elems h3"
      then have "heap_pos hs ! w \<noteq> None" using fr(1,5) that(3) by simp
      then have "w \<in> elems hs" using hs that(1,2) by blast
      with n fr(1) show False by simp
    qed
    then show ?thesis
      using fx(1,3) fr hs unfolding eq by simp
  next
    case False
    then have "h3 = hs" by (simp add: h3_def)
    then show ?thesis using hs False by auto
  qed
  have vn: "v \<notin> elems h3" using h3 by simp
  have wf3: "heap_wf h3" using h3 by simp
  have l3: "length (heap h3) = length (heap h)" using h3 by simp
  have po3: "\<And>w. w < length (heap h3) \<Longrightarrow> w \<noteq> v \<Longrightarrow> heap_pos h3 ! w \<noteq> None \<Longrightarrow> w \<in> elems h3"
    unfolding l3 using h3 by blast
  note um = unmark [OF wf3 vn po3]
  show "heap_inv k (extract_heap k v h)"
    unfolding ex heap_inv_def heap_ord_unmark using um h3 by simp
  show "length (heap (extract_heap k v h)) = length (heap h)"
    unfolding ex using h3 by simp
  show "size_h (extract_heap k v h) = size_h h - 1"
    unfolding ex using h3 by (simp add: l_def)
  have "alpha (extract_heap k v h) = (\<lambda>w. if w \<in> elems h3 then Some (key h3 ! w) else None)"
    unfolding ex using alpha_eq [OF um(1,2)] um(3) by (simp cong: if_cong)
  moreover have "elems h3 = elems h - {v}" "key h3 = key h"
    using h3 by simp_all
  ultimately show "alpha (extract_heap k v h) = (alpha h)(v := None)"
    unfolding alpha_eq [OF wf po] by (auto simp: fun_eq_iff)
qed

lemma extract_spec:
  fixes h :: "('k::linorder) KHeap"
  assumes "1 \<le> k" "heap_inv k h" "v < length (heap h)"
  shows "heap_inv k (extract_heap k v h)" "alpha (extract_heap k v h) = (alpha h)(v := None)"
    "length (heap (extract_heap k v h)) = length (heap h)"
proof -
  have "heap_inv k (extract_heap k v h) \<and> alpha (extract_heap k v h) = (alpha h)(v := None)
      \<and> length (heap (extract_heap k v h)) = length (heap h)"
  proof (cases "heap_pos h ! v")
    case None
    then have "extract_heap k v h = h"
      by (simp add: extract_heap_def)
    moreover have "alpha h v = None"
      using None by (simp add: alpha_def present_def)
    then have "(alpha h)(v := None) = alpha h"
      by (simp add: fun_eq_iff)
    ultimately show ?thesis using assms(2) by simp
  next
    case (Some pos)
    then show ?thesis using extract_present(1-3) [OF assms Some] by simp
  qed
  then show "heap_inv k (extract_heap k v h)" "alpha (extract_heap k v h) = (alpha h)(v := None)"
    "length (heap (extract_heap k v h)) = length (heap h)"
    by simp_all
qed

lemma heap_inv_new:
  "heap_inv k (KHeap_new m)" "alpha (KHeap_new m) = Map.empty" "length (heap (KHeap_new m)) = m"
proof -
  have wf: "heap_wf (KHeap_new m)"
    by (simp add: heap_wf_def KHeap_new_def)
  have po: "pos_ok (KHeap_new m)"
    by (simp add: pos_ok_def KHeap_new_def)
  show "heap_inv k (KHeap_new m)"
    using wf po by (simp add: heap_inv_def heap_ord_def KHeap_new_def)
  show "alpha (KHeap_new m) = Map.empty"
    unfolding alpha_eq [OF wf po] by (simp add: elems_def KHeap_new_def)
  show "length (heap (KHeap_new m)) = m"
    by (simp add: KHeap_new_def)
qed

lemma dom_alpha:
  assumes "heap_inv k h"
  shows "dom (alpha h) = elems h"
  unfolding alpha_eq [OF heap_invD(1,2) [OF assms]] by (auto split: if_splits)

lemma empty_iff:
  assumes "heap_inv k h"
  shows "empty h \<longleftrightarrow> alpha h = Map.empty"
proof -
  have "finite (elems h)" by (simp add: elems_def)
  then have "size_h h = 0 \<longleftrightarrow> elems h = {}"
    using card_elems [OF heap_invD(1) [OF assms]] by (metis card_0_eq)
  then show ?thesis
    using dom_alpha [OF assms] by (simp add: empty_def) (metis dom_eq_empty_conv)
qed

lemma top_spec:
  fixes h :: "('k::linorder) KHeap"
  assumes k: "1 \<le> k" and inv: "heap_inv k h" and ne: "\<not> empty h"
  shows "top h < length (heap h)" "alpha h (top h) = Some (key h ! top h)"
    "\<And>u ku. alpha h u = Some ku \<Longrightarrow> key h ! top h \<le> ku"
proof -
  note wf = heap_invD(1) [OF inv] and po = heap_invD(2) [OF inv] and ho = heap_invD(3) [OF inv]
  have s: "0 < size_h h" using ne by (simp add: empty_def)
  have te: "top h \<in> elems h"
    unfolding top_def using elems_iff [OF heap_wfD(3) [OF wf]] s by blast
  show "top h < length (heap h)"
    using elems_less(1) [OF wf te] .
  show "alpha h (top h) = Some (key h ! top h)"
    unfolding alpha_eq [OF wf po] using te by simp
  fix u ku assume "alpha h u = Some ku"
  then have u: "u \<in> elems h" "ku = key h ! u"
    unfolding alpha_eq [OF wf po] by (simp_all split: if_splits)
  then obtain i where i: "i < size_h h" "heap h ! i = u"
    using elems_iff [OF heap_wfD(3) [OF wf]] by blast
  have "kp h 0 \<le> kp h i"
    by (rule top_min [OF k ho i(1)])
  then show "key h ! top h \<le> ku"
    using i(2) u(2) by (simp add: kp_def top_def)
qed

lemma pop_spec:
  fixes h :: "('k::linorder) KHeap"
  assumes k: "1 \<le> k" and inv: "heap_inv k h" and ne: "\<not> empty h"
  shows "fst (pop k h) = top h" "heap_inv k (snd (pop k h))"
    "alpha (snd (pop k h)) = (alpha h)(top h := None)"
    "length (heap (snd (pop k h))) = length (heap h)"
  using extract_spec [OF k inv top_spec(1) [OF assms]]
  by (simp_all add: pop_def Let_def)

lemma clear_heap_spec:
  fixes h :: "('k::linorder) KHeap"
  assumes inv: "heap_inv k h"
  shows "heap_inv k (clear_heap h)" "alpha (clear_heap h) = Map.empty"
    "length (heap (clear_heap h)) = length (heap h)"
proof -
  note wf = heap_invD(1) [OF inv] and po = heap_invD(2) [OF inv]
  note len = heap_wfD(1-3) [OF wf]
  have fold_nth: "fold (\<lambda>i hp. hp[heap h ! i := None]) [0..<c] hp0 ! w
      = (if \<exists>i < c. heap h ! i = w then None else hp0 ! w)"
    if "w < length hp0" for c w and hp0 :: "nat option list"
    using that
  proof (induction c)
    case 0
    then show ?case by simp
  next
    case (Suc c)
    have l: "length (fold (\<lambda>i hp. hp[heap h ! i := None]) [0..<c] hp0) = length hp0"
      by (induction c) simp_all
    let ?F = "fold (\<lambda>i hp. hp[heap h ! i := None]) [0..<c] hp0"
    have st: "fold (\<lambda>i hp. hp[heap h ! i := None]) [0..<Suc c] hp0 = ?F[heap h ! c := None]"
      by simp
    show ?case
    proof (cases "heap h ! c = w")
      case True
      then have "\<exists>i < Suc c. heap h ! i = w" by blast
      then show ?thesis
        unfolding st using True Suc.prems l by simp
    next
      case False
      then have "(\<exists>i < Suc c. heap h ! i = w) \<longleftrightarrow> (\<exists>i < c. heap h ! i = w)"
        using less_Suc_eq by auto
      then show ?thesis
        unfolding st using False Suc by simp
    qed
  qed
  have l: "length (fold (\<lambda>i hp. hp[heap h ! i := None]) [0..<c] hp0) = length hp0"
    for c and hp0 :: "nat option list"
    by (induction c) simp_all
  have none: "heap_pos (clear_heap h) ! w = None" if "w < length (heap h)" for w
  proof (cases "w \<in> elems h")
    case True
    then show ?thesis
      using fold_nth [of w "heap_pos h" "size_h h"] that len elems_iff [OF len(3), of w]
      by (simp add: clear_heap_def)
  next
    case False
    then have "heap_pos h ! w = None"
      using pos_okD [OF po that] by blast
    then show ?thesis
      using fold_nth [of w "heap_pos h" "size_h h"] that len
      by (simp add: clear_heap_def)
  qed
  have wf': "heap_wf (clear_heap h)"
    using len l by (simp add: heap_wf_def clear_heap_def)
  have po': "pos_ok (clear_heap h)"
    unfolding pos_ok_def using none by (simp add: clear_heap_def)
  show "heap_inv k (clear_heap h)"
    using wf' po' by (simp add: heap_inv_def heap_ord_def clear_heap_def)
  show "alpha (clear_heap h) = Map.empty"
    unfolding alpha_eq [OF wf' po'] by (simp add: elems_def clear_heap_def)
  show "length (heap (clear_heap h)) = length (heap h)"
    by (simp add: clear_heap_def)
qed

subsection \<open>Sequences of heap operations\<close>

text \<open>
  The heaps reached from \<^verbatim>\<open>KHeap(n)\<close> by \<^verbatim>\<open>update\<close> and \<^verbatim>\<open>extract\<close> on elements
  below \<open>n\<close> and by \<^verbatim>\<open>pop\<close> on a non-empty heap, each with the contents the calls
  prescribe: the elements put in and not taken out since, with the key assigned last.
\<close>

inductive reach :: "nat \<Rightarrow> nat \<Rightarrow> ('k::{linorder,zero}) KHeap \<Rightarrow> (Vertex \<rightharpoonup> 'k) \<Rightarrow> bool"
  for k :: nat and m :: nat where
  reach_new: "reach k m (KHeap_new m) Map.empty"
| reach_update: "reach k m h c \<Longrightarrow> v < m \<Longrightarrow> reach k m (update k v kk h) (c(v \<mapsto> kk))"
| reach_extract: "reach k m h c \<Longrightarrow> v < m \<Longrightarrow> reach k m (extract_heap k v h) (c(v := None))"
| reach_pop: "reach k m h c \<Longrightarrow> \<not> empty h \<Longrightarrow> reach k m (snd (pop k h)) (c(fst (pop k h) := None))"

text \<open>Draining: at most \<open>f\<close> pops while the heap is not empty; the popped elements in order.\<close>

fun drain :: "nat \<Rightarrow> nat \<Rightarrow> ('k::linorder) KHeap \<Rightarrow> Vertex list" where
  "drain k 0 h = []"
| "drain k (Suc f) h = (if empty h then [] else fst (pop k h) # drain k f (snd (pop k h)))"

lemma reach_inv:
  assumes "1 \<le> k" "reach k m h c"
  shows "heap_inv k h \<and> alpha h = c \<and> length (heap h) = m"
  using assms(2)
proof (induction rule: reach.induct)
  case reach_new
  show ?case by (intro conjI heap_inv_new)
next
  case (reach_update h c v kk)
  then show ?case using update_spec [OF assms(1), of h v kk] by simp
next
  case (reach_extract h c v)
  then show ?case using extract_spec [OF assms(1), of h v] by simp
next
  case (reach_pop h c)
  then show ?case using pop_spec [OF assms(1), of h] by simp
qed

lemma size_pop:
  fixes h :: "('k::linorder) KHeap"
  assumes "1 \<le> k" "heap_inv k h" "\<not> empty h"
  shows "size_h (snd (pop k h)) = size_h h - 1"
proof -
  obtain pos where "heap_pos h ! top h = Some pos"
    using top_spec(1,2) [OF assms] by (auto simp: alpha_def present_def split: if_splits)
  then show ?thesis
    using extract_present(4) [OF assms(1,2) top_spec(1) [OF assms]]
    by (simp add: pop_def Let_def)
qed

lemma drain_spec:
  fixes h :: "('k::linorder) KHeap"
  assumes "1 \<le> k" "heap_inv k h" "size_h h = f"
  shows "sorted (map (\<lambda>v. the (alpha h v)) (drain k f h)) \<and> distinct (drain k f h)
     \<and> set (drain k f h) = dom (alpha h)"
  using assms(2,3)
proof (induction f arbitrary: h)
  case 0
  then have "empty h" by (simp add: empty_def)
  then show ?case using empty_iff [OF "0.prems"(1)] by simp
next
  case (Suc f)
  then have ne: "\<not> empty h" by (simp add: empty_def)
  let ?v = "fst (pop k h)" and ?h = "snd (pop k h)"
  note ps = pop_spec [OF assms(1) Suc.prems(1) ne]
  note ts = top_spec [OF assms(1) Suc.prems(1) ne]
  have sz: "size_h ?h = f"
    using size_pop [OF assms(1) Suc.prems(1) ne] Suc.prems(2) by simp
  note IH = Suc.IH [OF ps(2) sz]
  have al: "alpha ?h = (alpha h)(?v := None)"
    using ps(1,3) by simp
  have dr: "drain k (Suc f) h = ?v # drain k f ?h"
    using ne by simp
  have "set (drain k f ?h) = dom (alpha ?h)"
    using IH by blast
  then have sd: "set (drain k f ?h) = dom (alpha h) - {?v}"
    unfolding al by simp
  have same: "the (alpha ?h u) = the (alpha h u)" if "u \<in> set (drain k f ?h)" for u
    using that sd al by simp
  have le: "the (alpha h ?v) \<le> the (alpha h u)" if "u \<in> set (drain k f ?h)" for u
  proof -
    have "u \<in> dom (alpha h)" using that sd by simp
    then obtain ku where "alpha h u = Some ku" by blast
    then show ?thesis using ts(2,3) ps(1) by simp
  qed
  have "map (\<lambda>v. the (alpha ?h v)) (drain k f ?h) = map (\<lambda>v. the (alpha h v)) (drain k f ?h)"
    by (rule map_cong [OF refl same])
  moreover have "sorted (map (\<lambda>v. the (alpha ?h v)) (drain k f ?h))"
    using IH by blast
  ultimately have so: "sorted (map (\<lambda>v. the (alpha h v)) (drain k f ?h))"
    by metis
  have di: "distinct (drain k f ?h)"
    using IH by blast
  have "?v \<in> dom (alpha h)"
    using ts(2) ps(1) by auto
  then have "insert ?v (dom (alpha h) - {?v}) = dom (alpha h)"
    by blast
  then show ?case
    unfolding dr using so di sd le by simp
qed

text \<open>
  Claim C6. For every capacity \<open>m\<close>, after any sequence of \<^verbatim>\<open>update\<close> and
  \<^verbatim>\<open>extract\<close> calls on elements below \<open>m\<close> interleaved with pops, a \<^verbatim>\<open>pop\<close> on the
  non-empty heap returns a present element whose current key is minimal among the elements
  present; draining the heap by successive pops yields every present element once, with
  keys in non-decreasing order. The branching factor is any \<open>k \<ge> 1\<close>.
\<close>

theorem kheap_pop_min:
  assumes "1 \<le> k" "reach k m h c" "\<not> empty h"
  shows "(\<exists>kv. c (fst (pop k h)) = Some kv \<and> (\<forall>u ku. c u = Some ku \<longrightarrow> kv \<le> ku))
     \<and> sorted (map (\<lambda>v. the (c v)) (drain k (size_h h) h))
     \<and> distinct (drain k (size_h h) h) \<and> set (drain k (size_h h) h) = dom c"
proof -
  have inv: "heap_inv k h" and al: "alpha h = c"
    using reach_inv [OF assms(1,2)] by simp_all
  have "c (fst (pop k h)) = Some (key h ! top h)"
    using top_spec(2) [OF assms(1) inv assms(3)] pop_spec(1) [OF assms(1) inv assms(3)] al by simp
  moreover have "\<forall>u ku. c u = Some ku \<longrightarrow> key h ! top h \<le> ku"
    using top_spec(3) [OF assms(1) inv assms(3)] al by blast
  ultimately show ?thesis
    using drain_spec [OF assms(1) inv refl] al by blast
qed

text \<open>A 4-way heap of capacity 3 holding element 0 with key 7 and element 1 with key 5.\<close>

definition heap_example :: "nat KHeap" where
  "heap_example = update 4 1 5 (update 4 0 7 (KHeap_new 3))"

theorem kheap_pop_min_witness:
  "(1::nat) \<le> 4 \<and> reach 4 3 heap_example [0 \<mapsto> 7, 1 \<mapsto> 5] \<and> \<not> empty heap_example
   \<and> (\<exists>kv. [0 \<mapsto> 7, 1 \<mapsto> 5] (fst (pop 4 heap_example)) = Some kv
         \<and> (\<forall>(u::nat) ku. [0 \<mapsto> 7, 1 \<mapsto> (5::nat)] u = Some ku \<longrightarrow> kv \<le> ku))
   \<and> sorted (map (\<lambda>v::nat. the ([0 \<mapsto> 7, 1 \<mapsto> (5::nat)] v)) (drain 4 (size_h heap_example) heap_example))
   \<and> fst (pop 4 heap_example) = 1 \<and> drain 4 (size_h heap_example) heap_example = [1, 0]"
proof -
  have r: "reach 4 3 heap_example [0 \<mapsto> 7, 1 \<mapsto> 5]"
    unfolding heap_example_def
    by (intro reach_update reach_new) simp_all
  have ne: "\<not> empty heap_example"
    by code_simp
  have p: "fst (pop 4 heap_example) = 1" "drain 4 (size_h heap_example) heap_example = [1, 0]"
    by code_simp+
  have k: "(1::nat) \<le> 4" by simp
  note c = kheap_pop_min [OF k r ne]
  show ?thesis
    by (intro conjI k r ne p conjunct1 [OF c] conjunct1 [OF conjunct2 [OF c]])
qed

section \<open>Binary heap (lib/binheap.hpp)\<close>

text \<open>
  \<^verbatim>\<open>template<typename V, typename K> class BinHeap\<close>: positions count from 1, the array
  \<^verbatim>\<open>heap\<close> has \<open>n + 1\<close> cells, and position 0 in \<^verbatim>\<open>heap_pos\<close> marks an absent element.
\<close>

record 'k BinHeap =
  heap_bin :: "Vertex list"
  heap_pos_bin :: "nat list"
  key_bin :: "'k list"
  size_bin :: nat

definition BinHeap_new :: "nat \<Rightarrow> ('k::zero) BinHeap" where
  "BinHeap_new m = \<lparr> heap_bin = replicate (m + 1) 0, heap_pos_bin = replicate m 0,
                      key_bin = replicate m 0, size_bin = 0 \<rparr>"

definition swap_bin :: "nat \<Rightarrow> nat \<Rightarrow> 'k BinHeap \<Rightarrow> 'k BinHeap" where
  "swap_bin i j h =
     h\<lparr> heap_pos_bin := (heap_pos_bin h)[heap_bin h ! i := heap_pos_bin h ! (heap_bin h ! j),
                                          heap_bin h ! j := heap_pos_bin h ! (heap_bin h ! i)],
        heap_bin := (heap_bin h)[i := heap_bin h ! j, j := heap_bin h ! i] \<rparr>"

text \<open>\<^verbatim>\<open>kid(i)\<close>: \<^verbatim>\<open>2*i + (2*i+1 <= size && key[heap[2*i+1]] < key[heap[2*i]])\<close>.\<close>

definition kid_bin :: "('k::linorder) BinHeap \<Rightarrow> nat \<Rightarrow> nat" where
  "kid_bin h i =
     2 * i + (if 2 * i + 1 \<le> size_bin h
                 \<and> key_bin h ! (heap_bin h ! (2 * i + 1)) < key_bin h ! (heap_bin h ! (2 * i))
              then 1 else 0)"

lemma size_bin_swap_bin [simp]: "size_bin (swap_bin i j h) = size_bin h"
  by (simp add: swap_bin_def)

function fixup_down_bin :: "('k::linorder) BinHeap \<Rightarrow> nat \<Rightarrow> 'k BinHeap \<times> nat" where
  "fixup_down_bin h i =
     (if i * 2 \<le> size_bin h \<and> key_bin h ! (heap_bin h ! i) > key_bin h ! (heap_bin h ! kid_bin h i)
      then fixup_down_bin (swap_bin i (kid_bin h i) h) (kid_bin h i)
      else (h, i))"
  by pat_completeness auto
termination
proof (relation "measure (\<lambda>(h, i). size_bin h - i)", goal_cases)
  case 1
  then show ?case by simp
next
  case (2 h i)
  then have c: "i * 2 \<le> size_bin h"
    and lt: "key_bin h ! (heap_bin h ! kid_bin h i) < key_bin h ! (heap_bin h ! i)"
    by simp_all
  have ne: "kid_bin h i \<noteq> i"
    using lt by (metis less_irrefl)
  have "i < kid_bin h i \<and> kid_bin h i \<le> size_bin h"
    using c ne by (auto simp: kid_bin_def split: if_splits)
  then have "size_bin h - kid_bin h i < size_bin h - i"
    by linarith
  then show ?case by simp
qed

declare fixup_down_bin.simps [simp del]

function fixup_up_bin :: "('k::linorder) BinHeap \<Rightarrow> nat \<Rightarrow> 'k BinHeap" where
  "fixup_up_bin h i =
     (if i > 1 \<and> key_bin h ! (heap_bin h ! i) < key_bin h ! (heap_bin h ! (i div 2))
      then fixup_up_bin (swap_bin i (i div 2) h) (i div 2)
      else h)"
  by pat_completeness auto
termination
  by (relation "measure (\<lambda>(h, i). i)") auto

declare fixup_up_bin.simps [simp del]

definition fixup_bin :: "('k::linorder) BinHeap \<Rightarrow> nat \<Rightarrow> 'k BinHeap" where
  "fixup_bin h i = (case fixup_down_bin h i of (h', i') \<Rightarrow> fixup_up_bin h' i')"

text \<open>
  \<^verbatim>\<open>extract(v)\<close>: \<^verbatim>\<open>heap_pos[v] < size--\<close> compares with the old size and then
  decrements it; the swap partner \<^verbatim>\<open>size+1\<close> is the old last position.
\<close>

definition extract_bin :: "Vertex \<Rightarrow> ('k::linorder) BinHeap \<Rightarrow> 'k BinHeap" where
  "extract_bin v h =
     (if heap_pos_bin h ! v = 0 then h
      else
        let h1 = h\<lparr> size_bin := size_bin h - 1 \<rparr>;
            h2 = (if heap_pos_bin h ! v < size_bin h
                  then fixup_bin (swap_bin (heap_pos_bin h ! v) (size_bin h1 + 1) h1) (heap_pos_bin h ! v)
                  else h1)
        in h2\<lparr> heap_pos_bin := (heap_pos_bin h2)[v := 0] \<rparr>)"

definition empty_bin :: "'k BinHeap \<Rightarrow> bool" where
  "empty_bin h \<longleftrightarrow> size_bin h = 0"

definition top_bin :: "'k BinHeap \<Rightarrow> Vertex" where
  "top_bin h = heap_bin h ! 1"

definition pop_bin :: "('k::linorder) BinHeap \<Rightarrow> Vertex \<times> 'k BinHeap" where
  "pop_bin h = (let v = top_bin h in (v, extract_bin v h))"

definition update_bin :: "Vertex \<Rightarrow> 'k \<Rightarrow> ('k::linorder) BinHeap \<Rightarrow> 'k BinHeap" where
  "update_bin v kk h =
     (let h1 = (if heap_pos_bin h ! v = 0
                then h\<lparr> heap_pos_bin := (heap_pos_bin h)[v := size_bin h + 1],
                        heap_bin := (heap_bin h)[size_bin h + 1 := v],
                        size_bin := size_bin h + 1 \<rparr>
                else h);
          h2 = h1\<lparr> key_bin := (key_bin h1)[v := kk] \<rparr>
      in fixup_bin h2 (heap_pos_bin h2 ! v))"

subsection \<open>Sequences of operations and what they return\<close>

datatype 'k heap_op = Update Vertex 'k | Extract Vertex | Pop | Top | Empty

datatype obs = Returned_vertex Vertex | Returned_bool bool | Returned_nothing

text \<open>
  One call on a heap of capacity \<open>m\<close>. An element outside \<open>[0, m)\<close> and \<^verbatim>\<open>top\<close> or
  \<^verbatim>\<open>pop\<close> on a heap of capacity 0 read outside the vectors: \<open>OutOfRange\<close>.
\<close>

fun step_kheap :: "nat \<Rightarrow> nat \<Rightarrow> ('k::linorder) heap_op \<Rightarrow> 'k KHeap \<Rightarrow> error + obs \<times> 'k KHeap" where
  "step_kheap k m (Update v kk) h = (if v < m then Inr (Returned_nothing, update k v kk h) else Inl OutOfRange)"
| "step_kheap k m (Extract v) h = (if v < m then Inr (Returned_nothing, extract_heap k v h) else Inl OutOfRange)"
| "step_kheap k m Pop h = (if 0 < m then Inr (Returned_vertex (fst (pop k h)), snd (pop k h)) else Inl OutOfRange)"
| "step_kheap k m Top h = (if 0 < m then Inr (Returned_vertex (top h), h) else Inl OutOfRange)"
| "step_kheap k m Empty h = Inr (Returned_bool (empty h), h)"

fun step_bin :: "nat \<Rightarrow> ('k::linorder) heap_op \<Rightarrow> 'k BinHeap \<Rightarrow> error + obs \<times> 'k BinHeap" where
  "step_bin m (Update v kk) h = (if v < m then Inr (Returned_nothing, update_bin v kk h) else Inl OutOfRange)"
| "step_bin m (Extract v) h = (if v < m then Inr (Returned_nothing, extract_bin v h) else Inl OutOfRange)"
| "step_bin m Pop h = (if 0 < m then Inr (Returned_vertex (fst (pop_bin h)), snd (pop_bin h)) else Inl OutOfRange)"
| "step_bin m Top h = (if 0 < m then Inr (Returned_vertex (top_bin h), h) else Inl OutOfRange)"
| "step_bin m Empty h = Inr (Returned_bool (empty_bin h), h)"

fun run_kheap :: "nat \<Rightarrow> nat \<Rightarrow> ('k::linorder) heap_op list \<Rightarrow> 'k KHeap \<Rightarrow> error + obs list" where
  "run_kheap k m [] h = Inr []"
| "run_kheap k m (x # xs) h =
     (case step_kheap k m x h of
        Inl e \<Rightarrow> Inl e
      | Inr (r, h') \<Rightarrow> (case run_kheap k m xs h' of Inl e \<Rightarrow> Inl e | Inr rs \<Rightarrow> Inr (r # rs)))"

fun run_bin :: "nat \<Rightarrow> ('k::linorder) heap_op list \<Rightarrow> 'k BinHeap \<Rightarrow> error + obs list" where
  "run_bin m [] h = Inr []"
| "run_bin m (x # xs) h =
     (case step_bin m x h of
        Inl e \<Rightarrow> Inl e
      | Inr (r, h') \<Rightarrow> (case run_bin m xs h' of Inl e \<Rightarrow> Inl e | Inr rs \<Rightarrow> Inr (r # rs)))"

subsection \<open>The binary heap simulates the 2-way heap\<close>

text \<open>All cells of the heap array hold elements of the universe.\<close>

definition heap_range :: "'k KHeap \<Rightarrow> bool" where
  "heap_range h \<longleftrightarrow>
     size_h h \<le> length (heap h) \<and> length (heap_pos h) = length (heap h) \<and>
     (\<forall>i < length (heap h). heap h ! i < length (heap h))"

text \<open>Position \<open>p\<close> of the k-way heap is position \<open>p + 1\<close> of the binary heap.\<close>

definition enc :: "nat option \<Rightarrow> nat" where
  "enc x = (case x of None \<Rightarrow> 0 | Some p \<Rightarrow> p + 1)"

definition sim :: "'k KHeap \<Rightarrow> 'k BinHeap \<Rightarrow> bool" where
  "sim h b \<longleftrightarrow>
     size_bin b = size_h h \<and> key_bin b = key h \<and> tl (heap_bin b) = heap h \<and> heap_bin b \<noteq> [] \<and>
     heap_pos_bin b = map enc (heap_pos h)"

lemma simD:
  assumes "sim h b"
  shows "size_bin b = size_h h" "key_bin b = key h" "heap_bin b ! Suc i = heap h ! i"
    "heap_pos_bin b = map enc (heap_pos h)" "heap_bin b = hd (heap_bin b) # heap h"
proof -
  show e: "heap_bin b = hd (heap_bin b) # heap h"
    using assms by (cases "heap_bin b") (simp_all add: sim_def)
  show "heap_bin b ! Suc i = heap h ! i"
    by (subst e) simp
  show "size_bin b = size_h h" "key_bin b = key h" "heap_pos_bin b = map enc (heap_pos h)"
    using assms by (simp_all add: sim_def)
qed

lemma heap_range_swap:
  assumes "heap_range h" "i < length (heap h)" "j < length (heap h)"
  shows "heap_range (swap i j h)"
proof -
  have "heap (swap i j h) ! p < length (heap h)" if "p < length (heap h)" for p
    using heap_swap_nth [OF assms(2,3), of p] assms that unfolding heap_range_def by auto
  then show ?thesis
    using assms(1) unfolding heap_range_def by simp
qed

lemma sim_swap:
  assumes s: "sim h b" and r: "heap_range h" and i: "i < length (heap h)" and j: "j < length (heap h)"
  shows "sim (swap i j h) (swap_bin (Suc i) (Suc j) b)"
proof -
  note d = simD [OF s]
  have a: "heap h ! i < length (heap_pos h)" "heap h ! j < length (heap_pos h)"
    using r i j unfolding heap_range_def by simp_all
  have hp: "heap_pos_bin (swap_bin (Suc i) (Suc j) b) = map enc (heap_pos (swap i j h))"
    using a by (simp add: swap_bin_def swap_def d(3) d(4) map_update)
  have "heap_bin (swap_bin (Suc i) (Suc j) b)
      = (hd (heap_bin b) # heap h)[Suc i := heap h ! j, Suc j := heap h ! i]"
    using d(5) by (simp add: swap_bin_def d(3))
  then have hb: "heap_bin (swap_bin (Suc i) (Suc j) b) = hd (heap_bin b) # heap (swap i j h)"
    by (simp add: swap_def)
  show ?thesis
    unfolding sim_def using hp hb d(1,2) by (simp add: swap_bin_def)
qed

lemma kid2:
  "kid 2 h i = 2 * i + 1 + (if 2 * i + 2 < size_h h \<and> key h ! (heap h ! (2 * i + 2)) < key h ! (heap h ! (2 * i + 1)) then 1 else 0)"
proof -
  have "kid_loop 2 h c0 2 m = c0 + m" for c0 m
    by (subst kid_loop.simps) simp
  then have "kid_loop 2 h c0 1 0 = c0 + (if c0 + 1 < size_h h \<and> key h ! (heap h ! (c0 + 1)) < key h ! (heap h ! c0) then 1 else 0)" for c0
    by (subst kid_loop.simps) (simp add: numeral_2_eq_2)
  then show ?thesis
    by (simp add: kid_def mult.commute)
qed

lemma sim_kid:
  assumes "sim h b"
  shows "kid_bin b (Suc i) = Suc (kid 2 h i)"
proof -
  note d = simD [OF assms]
  have a: "heap_bin b ! (2 * Suc i + 1) = heap h ! (2 * i + 2)"
    using d(3) [of "2 * i + 2"] by simp
  have c: "heap_bin b ! (2 * Suc i) = heap h ! (2 * i + 1)"
    using d(3) [of "2 * i + 1"] by simp
  show ?thesis
    unfolding kid_bin_def kid2 a c d(1,2) by auto
qed

lemma sim_fixup_down:
  assumes "sim h b" "heap_range h" "i < size_h h"
  shows "sim (fst (fixup_down 2 h i)) (fst (fixup_down_bin b (Suc i)))
     \<and> snd (fixup_down_bin b (Suc i)) = Suc (snd (fixup_down 2 h i))
     \<and> heap_range (fst (fixup_down 2 h i)) \<and> snd (fixup_down 2 h i) < size_h (fst (fixup_down 2 h i))"
  using assms
proof (induction "2::nat" h i arbitrary: b rule: fixup_down.induct)
  case (1 h i)
  note d = simD [OF "1.prems"(1)]
  have c1: "Suc i * 2 \<le> size_bin b \<longleftrightarrow> i * 2 + 1 < size_h h"
    using d(1) by auto
  have c2: "key_bin b ! (heap_bin b ! Suc i) = key h ! (heap h ! i)"
    "key_bin b ! (heap_bin b ! kid_bin b (Suc i)) = key h ! (heap h ! kid 2 h i)"
    by (simp_all add: d(2,3) sim_kid [OF "1.prems"(1)])
  show ?case
  proof (cases "i * 2 + 1 < size_h h \<and> key h ! (heap h ! i) > key h ! (heap h ! kid 2 h i)")
    case True
    have two: "(1::nat) \<le> 2" by simp
    have ks: "kid 2 h i < size_h h"
      using kid_spec(2) [OF two] True by blast
    have len: "i < length (heap h)" "kid 2 h i < length (heap h)"
      using "1.prems"(2,3) ks unfolding heap_range_def by simp_all
    have e1: "fixup_down 2 h i = fixup_down 2 (swap i (kid 2 h i) h) (kid 2 h i)"
      by (subst fixup_down.simps) (use True in simp)
    have e2: "fixup_down_bin b (Suc i)
        = fixup_down_bin (swap_bin (Suc i) (Suc (kid 2 h i)) b) (Suc (kid 2 h i))"
      by (subst fixup_down_bin.simps) (use True c1 c2 sim_kid [OF "1.prems"(1)] in simp)
    have s': "sim (swap i (kid 2 h i) h) (swap_bin (Suc i) (Suc (kid 2 h i)) b)"
      by (rule sim_swap [OF "1.prems"(1,2) len])
    have r': "heap_range (swap i (kid 2 h i) h)"
      by (rule heap_range_swap [OF "1.prems"(2) len])
    have k': "kid 2 h i < size_h (swap i (kid 2 h i) h)"
      using ks by simp
    show ?thesis
      unfolding e1 e2 using "1.hyps" [OF True s' r' k'] .
  next
    case False
    have e1: "fixup_down 2 h i = (h, i)"
      by (subst fixup_down.simps) (use False in auto)
    have e2: "fixup_down_bin b (Suc i) = (b, Suc i)"
      by (subst fixup_down_bin.simps) (use False c1 c2 in auto)
    show ?thesis
      unfolding e1 e2 using "1.prems" by simp
  qed
qed

lemma sim_fixup_up:
  assumes "sim h b" "heap_range h" "i < size_h h"
  shows "sim (fixup_up 2 h i) (fixup_up_bin b (Suc i)) \<and> heap_range (fixup_up 2 h i)"
  using assms
proof (induction "2::nat" h i arbitrary: b rule: fixup_up.induct)
  case (1 h i)
  note d = simD [OF "1.prems"(1)]
  have par: "Suc i div 2 = Suc ((i - 1) div 2)" if "0 < i"
    using that by (cases i) simp_all
  have c2: "key_bin b ! (heap_bin b ! Suc i) = key h ! (heap h ! i)"
    by (simp add: d(2,3))
  show ?case
  proof (cases "i > 0 \<and> key h ! (heap h ! i) < key h ! (heap h ! ((i - 1) div 2))")
    case True
    then have pos: "0 < i" by simp
    have p: "(i - 1) div 2 < i"
      using parent_less [of 2 i] pos by simp
    have len: "i < length (heap h)" "(i - 1) div 2 < length (heap h)"
      using "1.prems"(2,3) p unfolding heap_range_def by simp_all
    have e1: "fixup_up 2 h i = fixup_up 2 (swap i ((i - 1) div 2) h) ((i - 1) div 2)"
      by (subst fixup_up.simps) (use True in simp)
    have e2: "fixup_up_bin b (Suc i)
        = fixup_up_bin (swap_bin (Suc i) (Suc ((i - 1) div 2)) b) (Suc ((i - 1) div 2))"
      by (subst fixup_up_bin.simps) (use True c2 par [OF pos] d(2,3) in simp)
    have s': "sim (swap i ((i - 1) div 2) h) (swap_bin (Suc i) (Suc ((i - 1) div 2)) b)"
      by (rule sim_swap [OF "1.prems"(1,2) len])
    have r': "heap_range (swap i ((i - 1) div 2) h)"
      by (rule heap_range_swap [OF "1.prems"(2) len])
    have k': "(i - 1) div 2 < size_h (swap i ((i - 1) div 2) h)"
      using p "1.prems"(3) by simp
    show ?thesis
      unfolding e1 e2 using "1.hyps" [OF True s' r' k'] .
  next
    case False
    have e1: "fixup_up 2 h i = h"
      by (subst fixup_up.simps) (use False in auto)
    have "\<not> (Suc i > 1 \<and> key_bin b ! (heap_bin b ! Suc i) < key_bin b ! (heap_bin b ! (Suc i div 2)))"
    proof (cases "0 < i")
      case True
      then show ?thesis using False c2 par [OF True] d(2,3) by simp
    next
      case False
      then show ?thesis by simp
    qed
    then have e2: "fixup_up_bin b (Suc i) = b"
      by (subst fixup_up_bin.simps) auto
    show ?thesis
      unfolding e1 e2 using "1.prems" by simp
  qed
qed

lemma sim_fixup:
  assumes "sim h b" "heap_range h" "i < size_h h"
  shows "sim (fixup 2 h i) (fixup_bin b (Suc i))" "heap_range (fixup 2 h i)"
proof -
  obtain h' i' where d: "fixup_down 2 h i = (h', i')"
    by (cases "fixup_down 2 h i")
  obtain b' j' where e: "fixup_down_bin b (Suc i) = (b', j')"
    by (cases "fixup_down_bin b (Suc i)")
  have s: "sim h' b'" "j' = Suc i'" "heap_range h'" "i' < size_h h'"
    using sim_fixup_down [OF assms] d e by simp_all
  have "sim (fixup_up 2 h' i') (fixup_up_bin b' (Suc i')) \<and> heap_range (fixup_up 2 h' i')"
    by (rule sim_fixup_up [OF s(1,3,4)])
  then show "sim (fixup 2 h i) (fixup_bin b (Suc i))" "heap_range (fixup 2 h i)"
    by (simp_all add: fixup_def fixup_bin_def d e s(2))
qed

lemma present_pos:
  assumes "heap_inv k h" "v < length (heap h)" "heap_pos h ! v = Some p"
  shows "p < size_h h" "heap h ! p = v"
proof -
  note wf = heap_invD(1) [OF assms(1)] and po = heap_invD(2) [OF assms(1)]
  have "v \<in> elems h"
    using pos_okD [OF po assms(2)] assms(3) by simp
  then obtain i where i: "i < size_h h" "heap h ! i = v"
    using elems_iff [OF heap_wfD(3) [OF wf]] by blast
  have "heap_pos h ! v = Some i"
    using heap_wfD(5) [OF wf i(1)] i(2) by simp
  with assms(3) have "i = p" by simp
  with i show "p < size_h h" "heap h ! p = v" by simp_all
qed

lemma sim_pos:
  assumes "sim h b" "heap_range h" "v < length (heap h)"
  shows "heap_pos_bin b ! v = enc (heap_pos h ! v)"
  using simD(4) [OF assms(1)] assms(2,3) by (simp add: heap_range_def)

lemma sim_update:
  fixes h :: "('k::linorder) KHeap"
  assumes s: "sim h b" and inv: "heap_inv 2 h" and r: "heap_range h" and v: "v < length (heap h)"
  shows "sim (update 2 v kk h) (update_bin v kk b)" "heap_range (update 2 v kk h)"
proof -
  note d = simD [OF s]
  note wf = heap_invD(1) [OF inv]
  have lp: "length (heap_pos h) = length (heap h)"
    using r by (simp add: heap_range_def)
  have pv: "heap_pos_bin b ! v = enc (heap_pos h ! v)"
    by (rule sim_pos [OF s r v])
  have "sim (update 2 v kk h) (update_bin v kk b) \<and> heap_range (update 2 v kk h)"
  proof (cases "heap_pos h ! v")
    case None
    define sz where "sz = size_h h"
    define h2 where "h2 = h\<lparr> heap_pos := (heap_pos h)[v := Some sz], heap := (heap h)[sz := v],
                           size_h := sz + 1, key := (key h)[v := kk] \<rparr>"
    define b2 where "b2 = b\<lparr> heap_pos_bin := (heap_pos_bin b)[v := sz + 1],
                           heap_bin := (heap_bin b)[sz + 1 := v],
                           size_bin := sz + 1, key_bin := (key_bin b)[v := kk] \<rparr>"
    have vn: "v \<notin> elems h"
      using elems_less(2) [OF wf] None by blast
    have sn: "sz < length (heap h)"
      unfolding sz_def by (rule size_less_absent [OF wf v vn])
    have up: "update 2 v kk h = fixup 2 h2 sz"
      using None v lp by (simp add: update_def h2_def sz_def Let_def)
    have ub: "update_bin v kk b = fixup_bin b2 (Suc sz)"
      using None v lp pv d(1,4)
      by (simp add: update_bin_def b2_def sz_def Let_def enc_def)
    have "heap_bin b2 = (hd (heap_bin b) # heap h)[Suc sz := v]"
      using d(5) by (simp add: b2_def)
    then have hb: "heap_bin b2 = hd (heap_bin b) # heap h2"
      by (simp add: h2_def)
    have hp: "heap_pos_bin b2 = map enc (heap_pos h2)"
      by (simp add: b2_def h2_def d(4) map_update enc_def)
    have s2: "sim h2 b2"
      unfolding sim_def using hb hp d(2) by (simp add: b2_def h2_def)
    have "heap h2 ! i < length (heap h)" if "i < length (heap h)" for i
    proof -
      have "heap h ! i < length (heap h)"
        using that r unfolding heap_range_def by blast
      then show ?thesis
        using that v sn by (simp add: h2_def nth_list_update)
    qed
    then have r2: "heap_range h2"
      using sn lp by (simp add: heap_range_def h2_def)
    have ss: "sz < size_h h2" by (simp add: h2_def)
    show ?thesis
      unfolding up ub using sim_fixup [OF s2 r2 ss] by simp
  next
    case (Some p)
    define h2 where "h2 = h\<lparr> key := (key h)[v := kk] \<rparr>"
    define b2 where "b2 = b\<lparr> key_bin := (key_bin b)[v := kk] \<rparr>"
    have up: "update 2 v kk h = fixup 2 h2 p"
      using Some by (simp add: update_def h2_def Let_def)
    have ub: "update_bin v kk b = fixup_bin b2 (Suc p)"
      using Some pv by (simp add: update_bin_def b2_def Let_def enc_def)
    have s2: "sim h2 b2"
      using s by (simp add: sim_def h2_def b2_def)
    have r2: "heap_range h2"
      using r by (simp add: heap_range_def h2_def)
    have ps: "p < size_h h2"
      using present_pos(1) [OF inv v Some] by (simp add: h2_def)
    show ?thesis
      unfolding up ub using sim_fixup [OF s2 r2 ps] by simp
  qed
  then show "sim (update 2 v kk h) (update_bin v kk b)" "heap_range (update 2 v kk h)"
    by simp_all
qed

lemma sim_extract:
  fixes h :: "('k::linorder) KHeap"
  assumes s: "sim h b" and inv: "heap_inv 2 h" and r: "heap_range h" and v: "v < length (heap h)"
  shows "sim (extract_heap 2 v h) (extract_bin v b)" "heap_range (extract_heap 2 v h)"
proof -
  note d = simD [OF s]
  have lp: "length (heap_pos h) = length (heap h)"
    using r by (simp add: heap_range_def)
  have pv: "heap_pos_bin b ! v = enc (heap_pos h ! v)"
    by (rule sim_pos [OF s r v])
  have "sim (extract_heap 2 v h) (extract_bin v b) \<and> heap_range (extract_heap 2 v h)"
  proof (cases "heap_pos h ! v")
    case None
    then show ?thesis
      using pv s r by (simp add: extract_heap_def extract_bin_def enc_def)
  next
    case (Some pos)
    have p: "pos < size_h h"
      by (rule present_pos(1) [OF inv v Some])
    define l where "l = size_h h - 1"
    have sz: "size_h h = Suc l" using p by (simp add: l_def)
    define h3 where "h3 = (if pos < l then fixup 2 (swap pos l (h\<lparr>size_h := l\<rparr>)) pos else h\<lparr>size_h := l\<rparr>)"
    define b3 where "b3 = (if pos < l then fixup_bin (swap_bin (Suc pos) (Suc l) (b\<lparr>size_bin := l\<rparr>)) (Suc pos)
                           else b\<lparr>size_bin := l\<rparr>)"
    have ex: "extract_heap 2 v h = h3\<lparr>heap_pos := (heap_pos h3)[v := None]\<rparr>"
      using Some by (simp add: extract_heap_def Let_def h3_def l_def)
    have hv: "heap_pos_bin b ! v = Suc pos"
      using Some pv by (simp add: enc_def)
    have szb: "size_bin b = Suc l"
      using d(1) sz by simp
    have eb: "extract_bin v b = b3\<lparr>heap_pos_bin := (heap_pos_bin b3)[v := 0]\<rparr>"
      by (simp add: extract_bin_def Let_def b3_def hv szb)
    have s1: "sim (h\<lparr>size_h := l\<rparr>) (b\<lparr>size_bin := l\<rparr>)"
      using s by (simp add: sim_def)
    have r1: "heap_range (h\<lparr>size_h := l\<rparr>)"
      using r sz by (simp add: heap_range_def)
    have s3: "sim h3 b3 \<and> heap_range h3"
    proof (cases "pos < l")
      case True
      have len: "pos < length (heap (h\<lparr>size_h := l\<rparr>))" "l < length (heap (h\<lparr>size_h := l\<rparr>))"
        using r sz p by (simp_all add: heap_range_def)
      have s2: "sim (swap pos l (h\<lparr>size_h := l\<rparr>)) (swap_bin (Suc pos) (Suc l) (b\<lparr>size_bin := l\<rparr>))"
        by (rule sim_swap [OF s1 r1 len])
      have r2: "heap_range (swap pos l (h\<lparr>size_h := l\<rparr>))"
        by (rule heap_range_swap [OF r1 len])
      have ps: "pos < size_h (swap pos l (h\<lparr>size_h := l\<rparr>))"
        using True by simp
      show ?thesis
        using sim_fixup [OF s2 r2 ps] True by (simp add: h3_def b3_def)
    next
      case False
      then show ?thesis using s1 r1 by (simp add: h3_def b3_def)
    qed
    have "sim (h3\<lparr>heap_pos := (heap_pos h3)[v := None]\<rparr>) (b3\<lparr>heap_pos_bin := (heap_pos_bin b3)[v := 0]\<rparr>)"
      using s3 by (simp add: sim_def map_update enc_def)
    moreover have "heap_range (h3\<lparr>heap_pos := (heap_pos h3)[v := None]\<rparr>)"
      using s3 by (simp add: heap_range_def)
    ultimately show ?thesis
      unfolding ex eb by simp
  qed
  then show "sim (extract_heap 2 v h) (extract_bin v b)" "heap_range (extract_heap 2 v h)"
    by simp_all
qed

text \<open>What a run of operations keeps between the two heaps.\<close>

definition rel :: "nat \<Rightarrow> ('k::linorder) KHeap \<Rightarrow> 'k BinHeap \<Rightarrow> bool" where
  "rel m h b \<longleftrightarrow> heap_inv 2 h \<and> heap_range h \<and> length (heap h) = m \<and> sim h b"

lemma rel_new: "rel m (KHeap_new m) (BinHeap_new m)"
proof -
  have "heap_range (KHeap_new m)"
    by (simp add: heap_range_def KHeap_new_def)
  moreover have "sim (KHeap_new m) (BinHeap_new m)"
    by (simp add: sim_def KHeap_new_def BinHeap_new_def enc_def)
  ultimately show ?thesis
    unfolding rel_def using heap_inv_new(1) [of 2 m] heap_inv_new(3) [of m] by simp
qed

lemma rel_step:
  fixes h :: "('k::linorder) KHeap"
  assumes "rel m h b"
  shows "case step_kheap 2 m x h of
           Inl e \<Rightarrow> step_bin m x b = Inl e
         | Inr (o1, h') \<Rightarrow> (\<exists>b'. step_bin m x b = Inr (o1, b') \<and> rel m h' b')"
proof -
  have inv: "heap_inv 2 h" and r: "heap_range h" and len: "length (heap h) = m" and s: "sim h b"
    using assms by (simp_all add: rel_def)
  have two: "(1::nat) \<le> 2" by simp
  note d = simD [OF s]
  have tp: "top_bin b = top h"
    using d(3) [of 0] by (simp add: top_bin_def top_def)
  show ?thesis
  proof (cases x)
    case (Update v kk)
    show ?thesis
    proof (cases "v < m")
      case True
      then have v: "v < length (heap h)" using len by simp
      have "rel m (update 2 v kk h) (update_bin v kk b)"
        unfolding rel_def
        using sim_update [OF s inv r v] update_spec(1,3) [OF two inv v] len by simp
      then show ?thesis using Update True by simp
    next
      case False
      then show ?thesis using Update by simp
    qed
  next
    case (Extract v)
    show ?thesis
    proof (cases "v < m")
      case True
      then have v: "v < length (heap h)" using len by simp
      have "rel m (extract_heap 2 v h) (extract_bin v b)"
        unfolding rel_def
        using sim_extract [OF s inv r v] extract_spec(1,3) [OF two inv v] len by simp
      then show ?thesis using Extract True by simp
    next
      case False
      then show ?thesis using Extract by simp
    qed
  next
    case Pop
    show ?thesis
    proof (cases "0 < m")
      case True
      then have v: "top h < length (heap h)"
        using r len by (simp add: heap_range_def top_def)
      have "rel m (extract_heap 2 (top h) h) (extract_bin (top h) b)"
        unfolding rel_def
        using sim_extract [OF s inv r v] extract_spec(1,3) [OF two inv v] len by simp
      then show ?thesis
        using Pop True tp by (simp add: pop_def pop_bin_def Let_def)
    next
      case False
      then show ?thesis using Pop by simp
    qed
  next
    case Top
    then show ?thesis using tp assms by simp
  next
    case Empty
    then show ?thesis using d(1) assms by (simp add: empty_def empty_bin_def)
  qed
qed

lemma rel_run:
  fixes h :: "('k::linorder) KHeap"
  assumes "rel m h b"
  shows "run_kheap 2 m xs h = run_bin m xs b"
  using assms
proof (induction xs arbitrary: h b)
  case Nil
  show ?case by simp
next
  case (Cons x xs)
  show ?case
  proof (cases "step_kheap 2 m x h")
    case (Inl e)
    then show ?thesis using rel_step [OF Cons.prems, of x] by simp
  next
    case (Inr p)
    obtain o1 h' where p: "p = (o1, h')" by (cases p)
    obtain b' where b': "step_bin m x b = Inr (o1, b')" "rel m h' b'"
      using rel_step [OF Cons.prems, of x] Inr p by auto
    show ?thesis
      using Inr p b' Cons.IH [OF b'(2)] by simp
  qed
qed

text \<open>
  Claim C10. For every universe size \<open>m\<close> and every sequence of \<^verbatim>\<open>update\<close>,
  \<^verbatim>\<open>extract\<close>, \<^verbatim>\<open>pop\<close>, \<^verbatim>\<open>top\<close> and \<^verbatim>\<open>empty\<close> calls, the legacy \<^verbatim>\<open>BinHeap\<close> and
  the \<^verbatim>\<open>KHeap\<close> with branching factor 2 return the same values at every step, and one
  reads outside its vectors exactly when the other does. The keys need not be distinct:
  both heaps make the same comparisons on the same cells, one position apart.
\<close>

theorem binheap_kheap2_same_results:
  fixes xs :: "('k::{linorder,zero}) heap_op list"
  shows "run_bin m xs (BinHeap_new m) = run_kheap 2 m xs (KHeap_new m)"
  using rel_run [OF rel_new, of m xs] by simp

text \<open>A run of both heaps on the same calls.\<close>

lemma run_kheap_example:
  "run_kheap 2 2 [Update 0 7, Update 1 (5::nat), Pop, Empty] (KHeap_new 2)
     = Inr [Returned_nothing, Returned_nothing, Returned_vertex 1, Returned_bool False]"
  by code_simp

section \<open>Command-line drivers (akiba.cpp, hhl.cpp)\<close>

text \<open>
  The drivers are modelled by their control flow. What the external collaborators answer
  is a parameter: whether a graph, order or label file can be read or written, whether the
  order read has as many entries as the graph has vertices, and the number parsed by
  \<^verbatim>\<open>strtoul\<close>. The builder between reading and writing is taken to return. The result is
  the list of diagnostics written to \<^verbatim>\<open>std::cerr\<close> and how the process ends:
  \<^verbatim>\<open>std::exit(1)\<close> and the return from \<^verbatim>\<open>main\<close> are exit statuses, a failed
  \<^verbatim>\<open>assert\<close> aborts.
\<close>

datatype outcome = Exit nat | Aborted

record world =
  graph_readable :: "string \<Rightarrow> bool"
  order_readable :: "string \<Rightarrow> bool"
  order_fits :: "string \<Rightarrow> bool"
  labels_writable :: "string \<Rightarrow> bool"
  order_writable :: "string \<Rightarrow> bool"
  strtoul :: "string \<Rightarrow> nat"
  omp_get_max_threads :: nat

record akiba_args =
  graph_file :: "string option"
  order_file :: "string option"
  label_file :: "string option"

text \<open>
  The argument loop of \<^verbatim>\<open>akiba\<close> on the arguments after \<^verbatim>\<open>argv[0]\<close>. \<open>None\<close> is a
  call of \<^verbatim>\<open>usage\<close>; otherwise the files found and whether the loop consumed every
  argument (\<^verbatim>\<open>argi == argc\<close>).
\<close>

fun parse_akiba :: "string list \<Rightarrow> akiba_args \<Rightarrow> (akiba_args \<times> bool) option" where
  "parse_akiba [] a = Some (a, True)"
| "parse_akiba (x # xs) a =
     (if x \<noteq> [] \<and> hd x = CHR ''-'' then
        (if x = ''--'' then Some (a, xs = [])
         else if x = ''-h'' then None
         else if x = ''-l'' then (case xs of [] \<Rightarrow> None | y # ys \<Rightarrow> parse_akiba ys (a\<lparr>label_file := Some y\<rparr>))
         else if x = ''-o'' then (case xs of [] \<Rightarrow> None | y # ys \<Rightarrow> parse_akiba ys (a\<lparr>order_file := Some y\<rparr>))
         else None)
      else if graph_file a = None then parse_akiba xs (a\<lparr>graph_file := Some x\<rparr>)
      else Some (a, False))"

definition akiba_main :: "world \<Rightarrow> string list \<Rightarrow> string list \<times> outcome" where
  "akiba_main w args =
     (case parse_akiba args \<lparr>graph_file = None, order_file = None, label_file = None\<rparr> of
        None \<Rightarrow> ([], Exit 1)
      | Some (a, consumed) \<Rightarrow>
          if \<not> consumed \<or> graph_file a = None \<or> order_file a = None then ([], Exit 1)
          else if \<not> graph_readable w (the (graph_file a))
            then ([''Unable to read graph from file '' @ the (graph_file a)], Exit 1)
          else if \<not> order_readable w (the (order_file a))
            then ([''Unable to read vertex order from file '' @ the (order_file a)], Exit 1)
          else if \<not> order_fits w (the (order_file a))
            then ([''Order is incompatible with graph.''], Exit 1)
          else if label_file a \<noteq> None \<and> \<not> labels_writable w (the (label_file a))
            then ([''Unable to write labels to file '' @ the (label_file a)], Exit 0)
          else ([], Exit 0))"

record hhl_args =
  hhl_graph_file :: "string option"
  hhl_order_file :: "string option"
  hhl_label_file :: "string option"
  num_threads :: nat
  type :: nat
  is_usp :: bool

fun parse_hhl :: "world \<Rightarrow> string list \<Rightarrow> hhl_args \<Rightarrow> (hhl_args \<times> bool) option" where
  "parse_hhl w [] a = Some (a, True)"
| "parse_hhl w (x # xs) a =
     (if x \<noteq> [] \<and> hd x = CHR ''-'' then
        (if x = ''--'' then Some (a, xs = [])
         else if x = ''-h'' then None
         else if x = ''-w'' then parse_hhl w xs (a\<lparr>type := 1\<rparr>)
         else if x = ''-u'' then parse_hhl w xs (a\<lparr>is_usp := True\<rparr>)
         else if x = ''-l'' then (case xs of [] \<Rightarrow> None | y # ys \<Rightarrow> parse_hhl w ys (a\<lparr>hhl_label_file := Some y\<rparr>))
         else if x = ''-o'' then (case xs of [] \<Rightarrow> None | y # ys \<Rightarrow> parse_hhl w ys (a\<lparr>hhl_order_file := Some y\<rparr>))
         else if x = ''-t'' then (case xs of [] \<Rightarrow> None | y # ys \<Rightarrow> parse_hhl w ys (a\<lparr>num_threads := strtoul w y\<rparr>))
         else None)
      else if hhl_graph_file a = None then parse_hhl w xs (a\<lparr>hhl_graph_file := Some x\<rparr>)
      else Some (a, False))"

definition hhl_main :: "world \<Rightarrow> string list \<Rightarrow> string list \<times> outcome" where
  "hhl_main w args =
     (case parse_hhl w args \<lparr>hhl_graph_file = None, hhl_order_file = None, hhl_label_file = None,
                              num_threads = omp_get_max_threads w, type = 0, is_usp = False\<rparr> of
        None \<Rightarrow> ([], Exit 1)
      | Some (a, consumed) \<Rightarrow>
          if \<not> consumed \<or> hhl_graph_file a = None then ([], Exit 1)
          else if \<not> num_threads a > 0 then ([], Aborted)
          else if \<not> graph_readable w (the (hhl_graph_file a))
            then ([''Unable to read graph from file '' @ the (hhl_graph_file a)], Exit 1)
          else
            ((if hhl_label_file a \<noteq> None \<and> \<not> labels_writable w (the (hhl_label_file a))
              then [''Unable to write labels to file '' @ the (hhl_label_file a)] else [])
             @ (if hhl_order_file a \<noteq> None \<and> \<not> order_writable w (the (hhl_order_file a))
                then [''Unable to write order to file '' @ the (hhl_order_file a)] else []),
             Exit 0))"

text \<open>A world in which every file can be read and nothing can be written.\<close>

definition read_only_world :: world where
  "read_only_world = \<lparr> graph_readable = (\<lambda>f. True), order_readable = (\<lambda>f. True),
     order_fits = (\<lambda>f. True), labels_writable = (\<lambda>f. False), order_writable = (\<lambda>f. False),
     strtoul = (\<lambda>s. 1), omp_get_max_threads = 1 \<rparr>"

text \<open>
  Claim C9 fails on the code. When the label file (and for \<^verbatim>\<open>hhl\<close> the order file)
  cannot be written, the drivers print the diagnostic and return from \<^verbatim>\<open>main\<close>: the
  exit status is 0, where the failures to read a file end in \<^verbatim>\<open>std::exit(1)\<close>.
\<close>

theorem write_failure_exits_0:
  "akiba_main read_only_world [''-o'', ''g.order'', ''-l'', ''g.labels'', ''g.graph'']
     = ([''Unable to write labels to file g.labels''], Exit 0)
   \<and> hhl_main read_only_world [''-o'', ''g.order'', ''-l'', ''g.labels'', ''g.graph'']
     = ([''Unable to write labels to file g.labels'', ''Unable to write order to file g.order''], Exit 0)"
  by (simp add: akiba_main_def hhl_main_def read_only_world_def)

text \<open>The exit statuses of the two runs alone.\<close>

theorem write_failure_exits_0_witness:
  "snd (akiba_main read_only_world [''-o'', ''g.order'', ''-l'', ''g.labels'', ''g.graph'']) = Exit 0
   \<and> snd (hhl_main read_only_world [''-o'', ''g.order'', ''-l'', ''g.labels'', ''g.graph'']) = Exit 0"
  using write_failure_exits_0 by simp

section \<open>Label files (Labeling::write, Labeling::read)\<close>

text \<open>
  The file is its sequence of characters. \<^verbatim>\<open>write\<close> is modelled by the text it sends to
  the stream when every output succeeds (it returns \<^verbatim>\<open>file.good()\<close>); \<^verbatim>\<open>read\<close> by a
  parser over the text that is \<open>None\<close> where the source returns \<^verbatim>\<open>false\<close>.

  An input stream is its unread characters and its \<^verbatim>\<open>eofbit\<close>; \<^verbatim>\<open>failbit\<close> is sticky and
  \<^verbatim>\<open>read\<close> returns \<^verbatim>\<open>false\<close> once it is set, so a failed extraction is \<open>None\<close>. The
  extraction \<^verbatim>\<open>file >> x\<close> of a number skips white space, takes the decimal digits that
  follow, fails if there is none or if the number exceeds the largest value of the type of
  \<open>x\<close>, and sets \<^verbatim>\<open>eofbit\<close> when it consumes the last character. The numbers written
  are natural numbers; signs are not part of the model.
\<close>

type_synonym istream = "string \<times> bool"

definition isspace :: "char \<Rightarrow> bool" where
  "isspace c \<longleftrightarrow> c \<in> {CHR '' '', CHR 0x09, CHR 0x0A, CHR 0x0B, CHR 0x0C, CHR 0x0D}"

definition isdigit :: "char \<Rightarrow> bool" where
  "isdigit c \<longleftrightarrow> 48 \<le> (of_char c :: nat) \<and> (of_char c :: nat) \<le> 57"

definition digit_char :: "nat \<Rightarrow> char" where
  "digit_char d = char_of (48 + d)"

definition digit_val :: "char \<Rightarrow> nat" where
  "digit_val c = of_char c - 48"

text \<open>\<^verbatim>\<open>file << x\<close> for a number: its decimal digits.\<close>

function digits10 :: "nat \<Rightarrow> string" where
  "digits10 x = (if x < 10 then [digit_char x] else digits10 (x div 10) @ [digit_char (x mod 10)])"
  by pat_completeness auto
termination
  by (relation "measure id") auto

declare digits10.simps [simp del]

definition nat_of_digits :: "string \<Rightarrow> nat" where
  "nat_of_digits ds = foldl (\<lambda>a c. a * 10 + digit_val c) 0 ds"

definition size_max :: nat where
  "size_max = 18446744073709551615"

definition get_num :: "nat \<Rightarrow> istream \<Rightarrow> (nat \<times> istream) option" where
  "get_num mx st =
     (if snd st then None
      else
        let cs = dropWhile isspace (fst st);
            ds = takeWhile isdigit cs;
            rest = dropWhile isdigit cs
        in if ds = [] then None
           else if nat_of_digits ds > mx then None
           else Some (nat_of_digits ds, (rest, rest = [])))"

text \<open>The inner loop of \<^verbatim>\<open>read\<close>: \<open>s\<close> times a hub and a distance.\<close>

primrec read_entries :: "nat \<Rightarrow> istream \<Rightarrow> ((Vertex list \<times> Distance list) \<times> istream) option" where
  "read_entries 0 st = Some (([], []), st)"
| "read_entries (Suc s) st =
     (case get_num infty st of
        None \<Rightarrow> None
      | Some (h, st1) \<Rightarrow>
          (case get_num infty st1 of
             None \<Rightarrow> None
           | Some (d, st2) \<Rightarrow>
               (case read_entries s st2 of
                  None \<Rightarrow> None
                | Some ((hs, ds), st3) \<Rightarrow> Some ((h # hs, d # ds), st3))))"

text \<open>One label: its size \<^verbatim>\<open>size_t s\<close>, then its entries.\<close>

definition read_side :: "istream \<Rightarrow> ((Vertex list \<times> Distance list) \<times> istream) option" where
  "read_side st =
     (case get_num size_max st of
        None \<Rightarrow> None
      | Some (s, st1) \<Rightarrow> read_entries s st1)"

text \<open>The loop over the vertices, two labels each.\<close>

primrec read_rows ::
  "nat \<Rightarrow> istream \<Rightarrow> ((Vertex list list list \<times> Distance list list list) \<times> istream) option" where
  "read_rows 0 st = Some (([], []), st)"
| "read_rows (Suc k) st =
     (case read_side st of
        None \<Rightarrow> None
      | Some ((h0, d0), st1) \<Rightarrow>
          (case read_side st1 of
             None \<Rightarrow> None
           | Some ((h1, d1), st2) \<Rightarrow>
               (case read_rows k st2 of
                  None \<Rightarrow> None
                | Some ((rv, rd), st3) \<Rightarrow> Some (([h0, h1] # rv, [d0, d1] # rd), st3))))"

text \<open>
  \<^verbatim>\<open>read(filename, check_n)\<close>: the labeling read when the source returns \<^verbatim>\<open>true\<close>.
  After the loops \<^verbatim>\<open>file >> std::ws\<close> skips white space; it fails on a stream whose
  \<^verbatim>\<open>eofbit\<close> is set already, and \<^verbatim>\<open>file.eof()\<close> holds after it when nothing but white
  space was left. \<^verbatim>\<open>resize\<close> gives the object \<open>n\<close> rows and every label of every row is
  resized and overwritten, so what the object held before is not a parameter.
\<close>

definition read_labeling :: "string \<Rightarrow> nat \<Rightarrow> Labeling option" where
  "read_labeling file check_n =
     (case get_num infty (file, False) of
        None \<Rightarrow> None
      | Some (m, st1) \<Rightarrow>
          if check_n \<noteq> 0 \<and> m \<noteq> check_n then None
          else
            (case read_rows m st1 of
               None \<Rightarrow> None
             | Some ((rv, rd), st2) \<Rightarrow>
                 if snd st2 then None
                 else if dropWhile isspace (fst st2) = []
                 then Some \<lparr> label_v = rv, label_d = rd, label_n = m \<rparr>
                 else None))"

text \<open>\<^verbatim>\<open>write\<close>: the vertex count, then one line per label.\<close>

definition write_side :: "Vertex list \<Rightarrow> Distance list \<Rightarrow> string" where
  "write_side hs ds =
     digits10 (length hs)
     @ concat (map (\<lambda>i. '' '' @ digits10 (hs ! i) @ '' '' @ digits10 (ds ! i)) [0..<length hs])
     @ [CHR 0x0A]"

definition write_labeling :: "Labeling \<Rightarrow> string" where
  "write_labeling L =
     digits10 (label_n L) @ [CHR 0x0A]
     @ concat (map (\<lambda>v. concat (map (\<lambda>s. write_side (label_v L ! v ! s) (label_d L ! v ! s)) [0, 1]))
                [0..<label_n L])"

text \<open>
  The values of a labeling fit their types: \<^verbatim>\<open>Vertex\<close> and \<^verbatim>\<open>Distance\<close> are
  \<^verbatim>\<open>int\<close>, a size is a \<^verbatim>\<open>size_t\<close>.
\<close>

definition labeling_typed :: "Labeling \<Rightarrow> bool" where
  "labeling_typed L \<longleftrightarrow>
     label_n L \<le> infty \<and>
     (\<forall>u < label_n L. \<forall>s < 2.
        length (label_v L ! u ! s) \<le> size_max \<and>
        (\<forall>x \<in> set (label_v L ! u ! s). x \<le> infty) \<and>
        (\<forall>x \<in> set (label_d L ! u ! s). x \<le> infty))"

subsection \<open>Digits\<close>

lemma isspace_less: "isspace c \<Longrightarrow> (of_char c :: nat) < 48"
  by (auto simp: isspace_def)

lemma digit_char_props:
  assumes "d < 10"
  shows "isdigit (digit_char d)" "digit_val (digit_char d) = d"
proof -
  have o: "(of_char (digit_char d) :: nat) = 48 + d"
    using assms by (simp add: digit_char_def)
  show "isdigit (digit_char d)" "digit_val (digit_char d) = d"
    using o assms by (simp_all add: isdigit_def digit_val_def)
qed

lemma digits10_props: "digits10 x \<noteq> [] \<and> (\<forall>c \<in> set (digits10 x). isdigit c) \<and> nat_of_digits (digits10 x) = x"
proof (induction x rule: digits10.induct)
  case (1 x)
  show ?case
  proof (cases "x < 10")
    case True
    then have "digits10 x = [digit_char x]"
      by (subst digits10.simps) simp
    then show ?thesis
      using True by (simp add: digit_char_props nat_of_digits_def)
  next
    case False
    have m: "x mod 10 < 10" by simp
    have e: "digits10 x = digits10 (x div 10) @ [digit_char (x mod 10)]"
      by (subst digits10.simps) (use False in simp)
    have "nat_of_digits (digits10 (x div 10) @ [digit_char (x mod 10)])
        = nat_of_digits (digits10 (x div 10)) * 10 + x mod 10"
      by (simp add: nat_of_digits_def digit_char_props(2) [OF m])
    then show ?thesis
      unfolding e using "1.IH" [OF False] digit_char_props(1) [OF m] by auto
  qed
qed

lemma get_num_digits:
  assumes "\<forall>c \<in> set sp. isspace c" "\<not> isdigit c" "x \<le> mx"
  shows "get_num mx (sp @ digits10 x @ c # rest, False) = Some (x, (c # rest, False))"
proof -
  note p = digits10_props [of x]
  obtain a as where a: "digits10 x = a # as"
    using p by (cases "digits10 x") auto
  have "isdigit a" using p a by simp
  then have "48 \<le> (of_char a :: nat)" by (simp add: isdigit_def)
  then have "\<not> isspace a"
    using isspace_less [of a] by fastforce
  then have d1: "dropWhile isspace (sp @ digits10 x @ c # rest) = digits10 x @ c # rest"
    using assms(1) a by (simp add: dropWhile_append3)
  have d2: "takeWhile isdigit (digits10 x @ c # rest) = digits10 x"
    using p assms(2) by (simp add: takeWhile_append2)
  have d3: "dropWhile isdigit (digits10 x @ c # rest) = c # rest"
    using p assms(2) by (simp add: dropWhile_append2)
  show ?thesis
    unfolding get_num_def using d1 d2 d3 p assms(3) by (simp add: Let_def)
qed

subsection \<open>Reading back what was written\<close>

text \<open>The entries of one label as written, and a label line without its end of line.\<close>

definition write_entries :: "(Vertex \<times> Distance) list \<Rightarrow> string" where
  "write_entries ps = concat (map (\<lambda>(h, d). '' '' @ digits10 h @ '' '' @ digits10 d) ps)"

definition side_body :: "Vertex list \<Rightarrow> Distance list \<Rightarrow> string" where
  "side_body hs ds = digits10 (length hs) @ write_entries (zip hs ds)"

lemma write_side_body:
  assumes "length hs = length ds"
  shows "write_side hs ds = side_body hs ds @ [CHR 0x0A]"
proof -
  have "map (\<lambda>i. '' '' @ digits10 (hs ! i) @ '' '' @ digits10 (ds ! i)) [0..<length hs]
      = map (\<lambda>(h, d). '' '' @ digits10 h @ '' '' @ digits10 d) (zip hs ds)"
    using assms by (intro nth_equalityI) simp_all
  then show ?thesis
    by (simp add: write_side_def side_body_def write_entries_def)
qed

lemma not_digit_sep [simp]: "\<not> isdigit (CHR '' '')" "\<not> isdigit (CHR 0x0A)"
  by (simp_all add: isdigit_def)

lemma space_sep [simp]: "isspace (CHR '' '')" "isspace (CHR 0x0A)"
  by (simp_all add: isspace_def)

lemma write_entries_head:
  assumes "\<not> isdigit c"
  shows "\<exists>c' r. write_entries ps @ c # rest = c' # r \<and> \<not> isdigit c'"
proof (cases ps)
  case Nil
  then show ?thesis using assms by (simp add: write_entries_def)
next
  case (Cons p ps')
  then show ?thesis by (cases p) (simp add: write_entries_def)
qed

lemma read_entries_written:
  assumes "\<forall>p \<in> set ps. fst p \<le> infty \<and> snd p \<le> infty" "\<not> isdigit c"
  shows "read_entries (length ps) (write_entries ps @ c # rest, False)
     = Some ((map fst ps, map snd ps), (c # rest, False))"
  using assms(1)
proof (induction ps)
  case Nil
  show ?case by (simp add: write_entries_def)
next
  case (Cons p ps)
  obtain h d where p: "p = (h, d)" by (cases p)
  have hd: "h \<le> infty" "d \<le> infty"
    using Cons.prems p by simp_all
  obtain c' r where w: "write_entries ps @ c # rest = c' # r" "\<not> isdigit c'"
    using write_entries_head [OF assms(2)] by blast
  have e: "write_entries (p # ps) @ c # rest
      = '' '' @ digits10 h @ CHR '' '' # ('''' @ digits10 d @ c' # r)"
    using w(1) by (simp add: write_entries_def p)
  have g1: "get_num infty ('' '' @ digits10 h @ CHR '' '' # ('''' @ digits10 d @ c' # r), False)
      = Some (h, (CHR '' '' # ('''' @ digits10 d @ c' # r), False))"
    by (rule get_num_digits) (simp_all add: hd)
  have g2: "get_num infty (CHR '' '' # ('''' @ digits10 d @ c' # r), False) = Some (d, (c' # r, False))"
    using get_num_digits [of "'' ''" c' d infty r] w(2) hd by simp
  have IH: "read_entries (length ps) (c' # r, False) = Some ((map fst ps, map snd ps), (c # rest, False))"
    using Cons.IH Cons.prems w(1) by simp
  show ?case
    unfolding e using g1 g2 IH by (simp add: p)
qed

lemma read_side_written:
  assumes "length hs = length ds" "length hs \<le> size_max"
    and "\<forall>x \<in> set hs. x \<le> infty" "\<forall>x \<in> set ds. x \<le> infty"
  shows "read_side (CHR 0x0A # side_body hs ds @ CHR 0x0A # rest, False)
     = Some ((hs, ds), (CHR 0x0A # rest, False))"
proof -
  obtain c' r where w: "write_entries (zip hs ds) @ CHR 0x0A # rest = c' # r" "\<not> isdigit c'"
    using write_entries_head [of "CHR 0x0A" "zip hs ds" rest] not_digit_sep(2) by blast
  have e: "CHR 0x0A # side_body hs ds @ CHR 0x0A # rest = [CHR 0x0A] @ digits10 (length hs) @ c' # r"
    using w(1) by (simp add: side_body_def)
  have g: "get_num size_max ([CHR 0x0A] @ digits10 (length hs) @ c' # r, False)
      = Some (length hs, (c' # r, False))"
    by (rule get_num_digits) (simp_all add: w(2) assms(2))
  have b: "\<forall>p \<in> set (zip hs ds). fst p \<le> infty \<and> snd p \<le> infty"
    using assms(3,4) by (auto dest: set_zip_leftD set_zip_rightD)
  have "read_entries (length (zip hs ds)) (write_entries (zip hs ds) @ CHR 0x0A # rest, False)
      = Some ((map fst (zip hs ds), map snd (zip hs ds)), (CHR 0x0A # rest, False))"
    by (rule read_entries_written [OF b]) simp
  then have "read_entries (length hs) (c' # r, False) = Some ((hs, ds), (CHR 0x0A # rest, False))"
    using assms(1) w(1) by simp
  then show ?thesis
    unfolding e read_side_def using g by simp
qed

text \<open>The two label lines of each vertex, each with the end of line before it.\<close>

definition rows_text :: "((Vertex list \<times> Distance list) \<times> (Vertex list \<times> Distance list)) list \<Rightarrow> string" where
  "rows_text rs =
     concat (map (\<lambda>(a, b). CHR 0x0A # side_body (fst a) (snd a) @ CHR 0x0A # side_body (fst b) (snd b)) rs)"

definition side_ok :: "Vertex list \<times> Distance list \<Rightarrow> bool" where
  "side_ok a \<longleftrightarrow> length (fst a) = length (snd a) \<and> length (fst a) \<le> size_max
     \<and> (\<forall>x \<in> set (fst a). x \<le> infty) \<and> (\<forall>x \<in> set (snd a). x \<le> infty)"

lemma rows_text_head: "\<exists>R. rows_text rs @ CHR 0x0A # rest = CHR 0x0A # R"
  by (cases rs) (auto simp: rows_text_def split: prod.splits)

lemma read_rows_written:
  assumes "\<forall>p \<in> set rs. side_ok (fst p) \<and> side_ok (snd p)"
  shows "read_rows (length rs) (rows_text rs @ CHR 0x0A # rest, False)
     = Some ((map (\<lambda>(a, b). [fst a, fst b]) rs, map (\<lambda>(a, b). [snd a, snd b]) rs),
             (CHR 0x0A # rest, False))"
  using assms
proof (induction rs)
  case Nil
  show ?case by (simp add: rows_text_def)
next
  case (Cons p rs)
  obtain h0 d0 h1 d1 where p: "p = ((h0, d0), (h1, d1))"
    by (cases p) auto
  have ok: "side_ok (h0, d0)" "side_ok (h1, d1)"
    using Cons.prems p by simp_all
  let ?R = "rows_text rs @ CHR 0x0A # rest"
  have e: "rows_text (p # rs) @ CHR 0x0A # rest
      = CHR 0x0A # side_body h0 d0 @ CHR 0x0A # (side_body h1 d1 @ ?R)"
    by (simp add: rows_text_def p)
  obtain R' where R': "?R = CHR 0x0A # R'"
    by (cases rs) (auto simp: rows_text_def split: prod.splits)
  have s0: "read_side (CHR 0x0A # side_body h0 d0 @ CHR 0x0A # (side_body h1 d1 @ ?R), False)
      = Some ((h0, d0), (CHR 0x0A # (side_body h1 d1 @ ?R), False))"
    using read_side_written [of h0 d0] ok(1) by (simp add: side_ok_def)
  have s1: "read_side (CHR 0x0A # (side_body h1 d1 @ ?R), False) = Some ((h1, d1), (?R, False))"
    using read_side_written [of h1 d1 R'] ok(2) R' by (simp add: side_ok_def)
  have IH: "read_rows (length rs) (?R, False)
      = Some ((map (\<lambda>(a, b). [fst a, fst b]) rs, map (\<lambda>(a, b). [snd a, snd b]) rs),
              (CHR 0x0A # rest, False))"
    using Cons.IH Cons.prems by simp
  show ?case
    unfolding e using s0 s1 IH by (simp add: p)
qed

lemma shift_end_of_line:
  "c # concat (map (\<lambda>x. f x @ c # g x @ [c]) xs) = concat (map (\<lambda>x. c # f x @ c # g x) xs) @ [c]"
  by (induction xs) simp_all

lemma write_labeling_rows:
  assumes "labeling_inv L"
  shows "write_labeling L
     = digits10 (label_n L)
       @ rows_text (map (\<lambda>v. ((label_v L ! v ! 0, label_d L ! v ! 0), (label_v L ! v ! 1, label_d L ! v ! 1)))
                     [0..<label_n L])
       @ [CHR 0x0A]"
proof -
  have len: "length (label_v L ! v ! s) = length (label_d L ! v ! s)" if "v < label_n L" "s < 2" for v s
    using assms that unfolding labeling_inv_def by blast
  have m: "map (\<lambda>v. concat (map (\<lambda>s. write_side (label_v L ! v ! s) (label_d L ! v ! s)) [0, 1])) [0..<label_n L]
      = map (\<lambda>v. side_body (label_v L ! v ! 0) (label_d L ! v ! 0) @ CHR 0x0A
                   # side_body (label_v L ! v ! 1) (label_d L ! v ! 1) @ [CHR 0x0A]) [0..<label_n L]"
    using len by (intro map_cong refl) (simp add: write_side_body)
  have "write_labeling L = digits10 (label_n L)
      @ CHR 0x0A # concat (map (\<lambda>v. side_body (label_v L ! v ! 0) (label_d L ! v ! 0) @ CHR 0x0A
                   # side_body (label_v L ! v ! 1) (label_d L ! v ! 1) @ [CHR 0x0A]) [0..<label_n L])"
    unfolding write_labeling_def m by simp
  then show ?thesis
    unfolding shift_end_of_line by (simp add: rows_text_def comp_def)
qed

lemma labeling_rows:
  assumes "labeling_inv L"
  shows "map (\<lambda>v. [label_v L ! v ! 0, label_v L ! v ! 1]) [0..<label_n L] = label_v L"
    "map (\<lambda>v. [label_d L ! v ! 0, label_d L ! v ! 1]) [0..<label_n L] = label_d L"
proof -
  have two: "xs = [xs ! 0, xs ! 1]" if l2: "length xs = 2" for xs :: "'a list"
  proof -
    obtain a b where "xs = [a, b]"
      using l2 by (auto simp: length_Suc_conv numeral_2_eq_2)
    then show ?thesis by simp
  qed
  have r: "length (label_v L) = label_n L" "length (label_d L) = label_n L"
    "\<And>v. v < label_n L \<Longrightarrow> length (label_v L ! v) = 2"
    "\<And>v. v < label_n L \<Longrightarrow> length (label_d L ! v) = 2"
    using assms unfolding labeling_inv_def by blast+
  show "map (\<lambda>v. [label_v L ! v ! 0, label_v L ! v ! 1]) [0..<label_n L] = label_v L"
    using r(1) two [OF r(3)] by (intro nth_equalityI) simp_all
  show "map (\<lambda>v. [label_d L ! v ! 0, label_d L ! v ! 1]) [0..<label_n L] = label_d L"
    using r(2) two [OF r(4)] by (intro nth_equalityI) simp_all
qed

text \<open>
  Claim C8. For every labeling \<open>L\<close> (satisfying the representation invariant of the class,
  with values in the range of their types), reading the file that \<^verbatim>\<open>write\<close> produced
  succeeds, unless a vertex count to check was given and differs, and yields the vertex
  count of \<open>L\<close> and, for every vertex and side, the same sequence of (hub, distance) entries
  in the same order.
\<close>

theorem read_write_roundtrip:
  assumes "labeling_inv L" "labeling_typed L"
  shows "read_labeling (write_labeling L) check_n
     = (if check_n \<noteq> 0 \<and> label_n L \<noteq> check_n then None else Some L)"
proof -
  let ?rs = "map (\<lambda>v. ((label_v L ! v ! 0, label_d L ! v ! 0), (label_v L ! v ! 1, label_d L ! v ! 1)))
               [0..<label_n L]"
  obtain R where R: "rows_text ?rs @ [CHR 0x0A] = CHR 0x0A # R"
    using rows_text_head [of ?rs "[]"] by blast
  have w: "write_labeling L = [] @ digits10 (label_n L) @ CHR 0x0A # R"
    using write_labeling_rows [OF assms(1)] R by simp
  have g: "get_num infty ([] @ digits10 (label_n L) @ CHR 0x0A # R, False)
      = Some (label_n L, (CHR 0x0A # R, False))"
    using assms(2) by (intro get_num_digits) (simp_all add: labeling_typed_def)
  have ok: "\<forall>p \<in> set ?rs. side_ok (fst p) \<and> side_ok (snd p)"
  proof -
    have "side_ok (label_v L ! v ! s, label_d L ! v ! s)" if "v < label_n L" "s < 2" for v s
    proof -
      have "length (label_v L ! v ! s) = length (label_d L ! v ! s)"
        using assms(1) that unfolding labeling_inv_def by blast
      moreover have "length (label_v L ! v ! s) \<le> size_max"
        "\<forall>x \<in> set (label_v L ! v ! s). x \<le> infty" "\<forall>x \<in> set (label_d L ! v ! s). x \<le> infty"
        using assms(2) that unfolding labeling_typed_def by blast+
      ultimately show ?thesis by (simp add: side_ok_def)
    qed
    then show ?thesis by simp
  qed
  have "read_rows (length ?rs) (rows_text ?rs @ CHR 0x0A # [], False)
      = Some ((map (\<lambda>(a, b). [fst a, fst b]) ?rs, map (\<lambda>(a, b). [snd a, snd b]) ?rs),
              (CHR 0x0A # [], False))"
    by (rule read_rows_written [OF ok])
  then have r: "read_rows (label_n L) (CHR 0x0A # R, False)
      = Some ((label_v L, label_d L), ([CHR 0x0A], False))"
    using R labeling_rows [OF assms(1)] by (simp add: comp_def)
  have k: "(case read_rows (label_n L) (CHR 0x0A # R, False) of
              None \<Rightarrow> None
            | Some ((rv, rd), st2) \<Rightarrow>
                if snd st2 then None
                else if dropWhile isspace (fst st2) = []
                then Some \<lparr> label_v = rv, label_d = rd, label_n = label_n L \<rparr>
                else None) = Some L"
    unfolding r by simp
  show ?thesis
    unfolding read_labeling_def w g by (simp only: option.case prod.case k)
qed

theorem read_write_roundtrip_witness:
  "labeling_inv L_two \<and> labeling_typed L_two \<and> read_labeling (write_labeling L_two) 0 = Some L_two"
proof -
  have inv: "labeling_inv L_two"
    by (simp add: labeling_inv_def L_two_def less_2_cases' nth_Cons')
  have ty: "labeling_typed L_two"
    by (simp add: labeling_typed_def L_two_def less_2_cases' nth_Cons' infty_def size_max_def)
  show ?thesis
    using read_write_roundtrip [OF inv ty, of 0] inv ty by simp
qed

end
